theory Spec2Isabelle
  imports Complex_Main "HOL-Library.Finite_Map" "HOL-Library.Char_ord" "HOL-Library.List_Lexorder"
begin

section \<open>Paths, names and the file system\<close>

text \<open>
  A \<open>Path\<close> is the list of its components and \<open>destination / name\<close> appends one
  component; names are ordinary file names (no separator, not \<open>.\<close> or \<open>..\<close>), as the
  stem of a file name is. The empty path is the root, which always exists as a directory.
  The file system is a finite map from paths to nodes; two names are the same entry when
  they are equal.
\<close>

type_synonym path = "string list"

datatype node = Dir | File string

type_synonym filesystem = "(path, node) fmap"

definition node_at :: "filesystem \<Rightarrow> path \<Rightarrow> node option" where
  "node_at fs p = (if p = [] then Some Dir else fmlookup fs p)"

text \<open>\<open>Path.exists()\<close>\<close>

definition path_exists :: "filesystem \<Rightarrow> path \<Rightarrow> bool" where
  "path_exists fs p = (node_at fs p \<noteq> None)"

text \<open>Every entry below the root lies in a directory that exists.\<close>

definition well_formed :: "filesystem \<Rightarrow> bool" where
  "well_formed fs = (\<forall>p \<in> fmdom' fs. node_at fs (butlast p) = Some Dir)"

text \<open>\<open>Path.name\<close>, \<open>str.rfind\<close>, \<open>Path.suffix\<close>, \<open>Path.stem\<close> and \<open>str.lower\<close> (on ASCII letters,
  which is all a comparison with \<open>.zip\<close> can see).\<close>

definition path_name :: "path \<Rightarrow> string" where
  "path_name p = (if p = [] then [] else last p)"

fun rfind :: "char \<Rightarrow> string \<Rightarrow> nat option" where
  "rfind c [] = None"
| "rfind c (x # xs) =
     (case rfind c xs of
        Some i \<Rightarrow> Some (Suc i)
      | None \<Rightarrow> if x = c then Some 0 else None)"

definition name_suffix :: "string \<Rightarrow> string" where
  "name_suffix name =
     (case rfind (CHR ''.'') name of
        None \<Rightarrow> []
      | Some i \<Rightarrow> if 0 < i \<and> i < length name - 1 then drop i name else [])"

definition name_stem :: "string \<Rightarrow> string" where
  "name_stem name =
     (case rfind (CHR ''.'') name of
        None \<Rightarrow> name
      | Some i \<Rightarrow> if 0 < i \<and> i < length name - 1 then take i name else name)"

definition lower_char :: "char \<Rightarrow> char" where
  "lower_char c =
     (case map_of (zip ''ABCDEFGHIJKLMNOPQRSTUVWXYZ'' ''abcdefghijklmnopqrstuvwxyz'') c of
        Some l \<Rightarrow> l
      | None \<Rightarrow> c)"

definition str_lower :: "string \<Rightarrow> string" where
  "str_lower s = map lower_char s"

section \<open>The state the program runs in\<close>

datatype exn =
    ValueError
  | FileNotFoundError
  | FileExistsError
  | PermissionError
  | BadZipFile
  | NotImplementedError
  | ReError
  | OSError

text \<open>The members of an archive, as the archive library resolves them below the target
  directory: a directory, a file with its data, or an entry it cannot decode.\<close>

datatype member =
    DirEntry (rel: path)
  | FileEntry (rel: path) string
  | BadEntry (rel: path) exn

datatype syscall =
    SysMkdir path
  | SysOpen path
  | SysWrite path
  | SysUnlink path
  | SysRead path
  | SysAppend path

datatype log_line =
    Timeout path int
  | Extracted path path
  | Deleted path
  | TodoAdded string
  | Error path exn
  | Detected string path
  | FoundExisting path

text \<open>
  \<open>files\<close> is the file system and \<open>log_lines\<close> what the logger has written. \<open>clock\<close> is the
  time slept so far; \<open>locked p t\<close> says that another process holds file \<open>p\<close> open at time
  \<open>t\<close>. \<open>faults\<close> is what the operating system refuses (permissions, a full disk): a call it
  maps to an exception raises that exception. \<open>unzip\<close> decodes the bytes of a file as an
  archive, or raises.
\<close>

record world =
  files :: filesystem
  log_lines :: "log_line list"
  clock :: rat
  locked :: "path \<Rightarrow> rat \<Rightarrow> bool"
  faults :: "syscall \<Rightarrow> exn option"
  unzip :: "string \<Rightarrow> exn + member list"

definition log_info :: "world \<Rightarrow> log_line \<Rightarrow> world" where
  "log_info w l = w\<lparr>log_lines := log_lines w @ [l]\<rparr>"

text \<open>\<open>time.sleep\<close> raises \<open>ValueError\<close> on a negative length.\<close>

definition time_sleep :: "world \<Rightarrow> rat \<Rightarrow> exn \<times> world + world" where
  "time_sleep w secs =
     (if secs < 0 then Inl (ValueError, w) else Inr (w\<lparr>clock := clock w + secs\<rparr>))"

text \<open>\<open>int(x)\<close> truncates towards zero.\<close>

definition py_int :: "rat \<Rightarrow> int" where
  "py_int x = (if 0 \<le> x then \<lfloor>x\<rfloor> else \<lceil>x\<rceil>)"

section \<open>wait\_for\_file\_ready\<close>

text \<open>\<open>CreateFileW\<close> with \<open>FILE_SHARE_NONE\<close> and \<open>OPEN_EXISTING\<close> returns a valid handle
  when the path is a file that no other process holds open.\<close>

definition exclusive_open :: "world \<Rightarrow> path \<Rightarrow> bool" where
  "exclusive_open w file_path =
     (case node_at (files w) file_path of
        Some (File _) \<Rightarrow> \<not> locked w file_path (clock w)
      | _ \<Rightarrow> False)"

fun wait_loop :: "world \<Rightarrow> path \<Rightarrow> nat \<Rightarrow> rat \<Rightarrow> exn \<times> world + bool \<times> world" where
  "wait_loop w file_path 0 delay = Inr (False, w)"
| "wait_loop w file_path (Suc n) delay =
     (if exclusive_open w file_path then Inr (True, w)
      else case time_sleep w delay of
             Inl e \<Rightarrow> Inl e
           | Inr w' \<Rightarrow> wait_loop w' file_path n delay)"

text \<open>\<open>range(retries)\<close> is empty when \<open>retries\<close> is not positive.\<close>

definition wait_for_file_ready :: "world \<Rightarrow> path \<Rightarrow> int \<Rightarrow> rat \<Rightarrow> exn \<times> world + bool \<times> world" where
  "wait_for_file_ready w file_path retries delay = wait_loop w file_path (nat retries) delay"

section \<open>resolve\_extract\_path\<close>

definition digit_char :: "nat \<Rightarrow> char" where
  "digit_char d = ''0123456789'' ! d"

fun str_nat :: "nat \<Rightarrow> string" where
  "str_nat n = (if n < 10 then [digit_char n] else str_nat (n div 10) @ [digit_char (n mod 10)])"

declare str_nat.simps [simp del]

text \<open>\<open>f"{folder_name}_{counter}"\<close>\<close>

definition suffixed :: "string \<Rightarrow> nat \<Rightarrow> string" where
  "suffixed folder_name counter = folder_name @ ''_'' @ str_nat counter"

text \<open>The counters from \<open>k\<close> on whose name is taken: the measure of the loop.\<close>

definition taken_from :: "filesystem \<Rightarrow> path \<Rightarrow> string \<Rightarrow> nat \<Rightarrow> nat set" where
  "taken_from fs d n k = {j. k \<le> j \<and> path_exists fs (d @ [suffixed n j])}"

function find_free :: "filesystem \<Rightarrow> path \<Rightarrow> string \<Rightarrow> nat \<Rightarrow> nat" where
  "find_free fs destination folder_name counter =
     (if path_exists fs (destination @ [suffixed folder_name counter])
      then find_free fs destination folder_name (counter + 1)
      else counter)"
  by pat_completeness auto

text \<open>
  The loop ends: the file system is finite and the names \<open>n_2\<close>, \<open>n_3\<close>, ... differ from
  one another (a number is determined by its decimal digits), so each round leaves fewer
  taken names ahead.
\<close>

termination find_free
proof (relation "measure (\<lambda>(fs, d, n, k). card (taken_from fs d n k))")
  show "wf (measure (\<lambda>(fs, d, n, k). card (taken_from fs d n k)))" by simp
next
  fix fs :: filesystem and destination :: path and folder_name :: string and counter :: nat
  assume ex: "path_exists fs (destination @ [suffixed folder_name counter])"
  have digit_inj: "a = b" if "a < 10" "b < 10" "digit_char a = digit_char b" for a b
  proof -
    have d: "distinct ''0123456789''" by simp
    have "a < length ''0123456789''" "b < length ''0123456789''" using that by simp_all
    with d that(3) show "a = b" unfolding digit_char_def by (simp add: nth_eq_iff_index_eq)
  qed
  have nonempty: "str_nat n \<noteq> []" for n
    by (subst str_nat.simps) simp
  have str_inj: "m = n" if "str_nat m = str_nat n" for m n
    using that
  proof (induction m arbitrary: n rule: str_nat.induct)
    case (1 m)
    show ?case
    proof (cases "m < 10")
      case True
      then have sm: "str_nat m = [digit_char m]" by (subst str_nat.simps) simp
      show ?thesis
      proof (cases "n < 10")
        case True
        then have "str_nat n = [digit_char n]" by (subst str_nat.simps) simp
        with sm "1.prems" have "digit_char m = digit_char n" by simp
        with \<open>m < 10\<close> True show ?thesis by (rule digit_inj)
      next
        case False
        then have "str_nat n = str_nat (n div 10) @ [digit_char (n mod 10)]"
          by (subst str_nat.simps) simp
        with sm "1.prems" have "str_nat (n div 10) = []" by simp
        with nonempty show ?thesis by blast
      qed
    next
      case False
      then have sm: "str_nat m = str_nat (m div 10) @ [digit_char (m mod 10)]"
        by (subst str_nat.simps) simp
      show ?thesis
      proof (cases "n < 10")
        case True
        then have "str_nat n = [digit_char n]" by (subst str_nat.simps) simp
        with sm "1.prems" have "str_nat (m div 10) = []" by simp
        with nonempty show ?thesis by blast
      next
        case n: False
        then have "str_nat n = str_nat (n div 10) @ [digit_char (n mod 10)]"
          by (subst str_nat.simps) simp
        with sm "1.prems" have e1: "str_nat (m div 10) = str_nat (n div 10)"
          and e2: "digit_char (m mod 10) = digit_char (n mod 10)" by simp_all
        from "1.IH" [OF False e1] have q: "m div 10 = n div 10" .
        have "m mod 10 = n mod 10" using e2 by (intro digit_inj) simp_all
        with q show ?thesis by (metis div_mult_mod_eq)
      qed
    qed
  qed
  have name_inj: "j = k" if "suffixed folder_name j = suffixed folder_name k" for j k
    using that by (simp add: suffixed_def str_inj)
  have fin: "finite (taken_from fs destination folder_name k)" for k
  proof -
    have "taken_from fs destination folder_name k
        \<subseteq> (\<lambda>j. destination @ [suffixed folder_name j]) -` fmdom' fs"
      by (auto simp: taken_from_def path_exists_def node_at_def fmlookup_dom'_iff)
    moreover have "finite ((\<lambda>j. destination @ [suffixed folder_name j]) -` fmdom' fs)"
      by (rule finite_vimageI) (auto simp: inj_on_def dest: name_inj)
    ultimately show ?thesis by (rule finite_subset)
  qed
  have "taken_from fs destination folder_name (counter + 1)
          \<subset> taken_from fs destination folder_name counter"
  proof
    show "taken_from fs destination folder_name (counter + 1)
          \<subseteq> taken_from fs destination folder_name counter"
      by (auto simp: taken_from_def)
    have "counter \<in> taken_from fs destination folder_name counter"
      using ex by (simp add: taken_from_def)
    moreover have "counter \<notin> taken_from fs destination folder_name (counter + 1)"
      by (simp add: taken_from_def)
    ultimately show "taken_from fs destination folder_name (counter + 1)
          \<noteq> taken_from fs destination folder_name counter" by blast
  qed
  then have "card (taken_from fs destination folder_name (counter + 1))
          < card (taken_from fs destination folder_name counter)"
    by (rule psubset_card_mono [OF fin])
  then show "((fs, destination, folder_name, counter + 1), (fs, destination, folder_name, counter))
      \<in> measure (\<lambda>(fs, d, n, k). card (taken_from fs d n k))" by simp
qed

declare find_free.simps [simp del]

definition resolve_extract_path :: "filesystem \<Rightarrow> path \<Rightarrow> string \<Rightarrow> path" where
  "resolve_extract_path fs destination folder_name =
     (let extract_to = destination @ [folder_name] in
      if \<not> path_exists fs extract_to then extract_to
      else destination @ [suffixed folder_name (find_free fs destination folder_name 2)])"


section \<open>The pattern of add\_todo\_entry\<close>

text \<open>
  The fragment of the pattern language that the pattern of \<open>add_todo_entry\<close> is written in:
  the flag \<open>(?m)\<close>, \<open>^\<close>, \<open>.\<close>, literal and escaped characters, and the postfix operators
  \<open>*\<close> and \<open>?\<close>. A pattern outside the fragment does not compile.
\<close>

definition newline :: char where
  "newline = CHR 0x0A"

definition backslash :: char where
  "backslash = CHR 0x5C"

definition re_special_chars :: "char list" where
  "re_special_chars =
     ''()[]{}?*+-|^$.&~# '' @ [backslash, CHR 0x09, CHR 0x0A, CHR 0x0D, CHR 0x0B, CHR 0x0C]"

text \<open>\<open>re.escape\<close>\<close>

definition re_escape :: "string \<Rightarrow> string" where
  "re_escape s = concat (map (\<lambda>c. if c \<in> set re_special_chars then [backslash, c] else [c]) s)"

datatype tok = TChar char | TDot | TBol | TStar | TQuest | TBad

definition ascii_alnum :: "char \<Rightarrow> bool" where
  "ascii_alnum c =
     (c \<in> set ''abcdefghijklmnopqrstuvwxyzABCDEFGHIJKLMNOPQRSTUVWXYZ0123456789'')"

definition tok1 :: "char \<Rightarrow> tok" where
  "tok1 c =
     (if c = CHR ''.'' then TDot
      else if c = CHR ''^'' then TBol
      else if c = CHR ''*'' then TStar
      else if c = CHR ''?'' then TQuest
      else if c \<in> set ''()[]{}+|$'' \<or> c = backslash then TBad
      else TChar c)"

fun tokenize :: "string \<Rightarrow> tok list" where
  "tokenize [] = []"
| "tokenize [c] = [tok1 c]"
| "tokenize (c # d # cs) =
     (if c = backslash then (if ascii_alnum d then TBad else TChar d) # tokenize cs
      else tok1 c # tokenize (d # cs))"

datatype atom = Lit char | Dot

datatype item = Bol | One atom | Many atom | Maybe atom

fun atom_of :: "tok \<Rightarrow> atom option" where
  "atom_of (TChar c) = Some (Lit c)"
| "atom_of TDot = Some Dot"
| "atom_of _ = None"

fun items_of :: "tok list \<Rightarrow> item list option" where
  "items_of [] = Some []"
| "items_of (TBol # ts) = map_option (Cons Bol) (items_of ts)"
| "items_of (t # TStar # ts) =
     (case atom_of t of
        None \<Rightarrow> None
      | Some a \<Rightarrow> map_option (Cons (Many a)) (items_of ts))"
| "items_of (t # TQuest # ts) =
     (case atom_of t of
        None \<Rightarrow> None
      | Some a \<Rightarrow> map_option (Cons (Maybe a)) (items_of ts))"
| "items_of (t # ts) =
     (case atom_of t of
        None \<Rightarrow> None
      | Some a \<Rightarrow> map_option (Cons (One a)) (items_of ts))"

definition re_compile :: "string \<Rightarrow> item list option" where
  "re_compile pattern =
     (if take 4 pattern = ''(?m)'' then items_of (tokenize (drop 4 pattern)) else None)"

text \<open>\<open>.\<close> matches every character but the newline.\<close>

fun atom_matches :: "atom \<Rightarrow> char \<Rightarrow> bool" where
  "atom_matches (Lit c) x = (x = c)"
| "atom_matches Dot x = (x \<noteq> newline)"

text \<open>
  \<open>match_here items bol s\<close>: the items match a prefix of \<open>s\<close>; \<open>bol\<close> says that \<open>s\<close> starts
  at the beginning of the text or right after a newline, which is where \<open>^\<close> matches in
  multi-line mode. The operators are greedy and backtrack, so a search succeeds when some
  way of matching does.
\<close>

fun match_here :: "item list \<Rightarrow> bool \<Rightarrow> string \<Rightarrow> bool" where
  "match_here [] bol s = True"
| "match_here (Bol # r) bol s = (if bol then match_here r bol s else False)"
| "match_here (One a # r) bol [] = False"
| "match_here (One a # r) bol (x # s) =
     (if atom_matches a x then match_here r (x = newline) s else False)"
| "match_here (Many a # r) bol [] = match_here r bol []"
| "match_here (Many a # r) bol (x # s) =
     (if atom_matches a x
      then (if match_here (Many a # r) (x = newline) s then True else match_here r bol (x # s))
      else match_here r bol (x # s))"
| "match_here (Maybe a # r) bol [] = match_here r bol []"
| "match_here (Maybe a # r) bol (x # s) =
     (if atom_matches a x
      then (if match_here r (x = newline) s then True else match_here r bol (x # s))
      else match_here r bol (x # s))"

fun search_from :: "item list \<Rightarrow> bool \<Rightarrow> string \<Rightarrow> bool" where
  "search_from items bol [] = match_here items bol []"
| "search_from items bol (x # s) =
     (if match_here items bol (x # s) then True else search_from items (x = newline) s)"

text \<open>\<open>re.search(pattern, content)\<close> as a truth value; \<open>re.error\<close> when the pattern does
  not compile.\<close>

definition re_search :: "string \<Rightarrow> string \<Rightarrow> exn + bool" where
  "re_search pattern content =
     (case re_compile pattern of
        None \<Rightarrow> Inl ReError
      | Some items \<Rightarrow> Inr (search_from items True content))"

section \<open>add\_todo\_entry\<close>

text \<open>
  The task document is its text as the program reads it; appending in text mode adds the
  entry's text at the end.
\<close>

definition read_text :: "world \<Rightarrow> path \<Rightarrow> exn + string" where
  "read_text w p =
     (case faults w (SysRead p) of
        Some e \<Rightarrow> Inl e
      | None \<Rightarrow>
          (case node_at (files w) p of
             Some (File content) \<Rightarrow> Inr content
           | Some Dir \<Rightarrow> Inl PermissionError
           | None \<Rightarrow> Inl FileNotFoundError))"

definition append_text :: "world \<Rightarrow> path \<Rightarrow> string \<Rightarrow> exn \<times> world + world" where
  "append_text w p entry =
     (case faults w (SysAppend p) of
        Some e \<Rightarrow> Inl (e, w)
      | None \<Rightarrow>
          (case node_at (files w) p of
             Some (File content) \<Rightarrow> Inr (w\<lparr>files := fmupd p (File (content @ entry)) (files w)\<rparr>)
           | Some Dir \<Rightarrow> Inl (PermissionError, w)
           | None \<Rightarrow>
               (if node_at (files w) (butlast p) = Some Dir
                then Inr (w\<lparr>files := fmupd p (File entry) (files w)\<rparr>)
                else Inl (FileNotFoundError, w))))"

definition todo_pattern :: "string \<Rightarrow> string" where
  "todo_pattern folder_name =
     ''(?m)^## '' @ [backslash] @ ''[.*'' @ [backslash] @ '']'' @ [backslash] @ ''(''
       @ re_escape folder_name @ ''/?'' @ [backslash] @ '')''"

definition todo_entry :: "string \<Rightarrow> string" where
  "todo_entry folder_name =
     [newline] @ ''## ['' @ folder_name @ '']('' @ folder_name @ ''/)'' @ [newline]
       @ ''- [ ] Review and determine next steps'' @ [newline]"

definition add_todo_entry :: "world \<Rightarrow> path \<Rightarrow> string \<Rightarrow> exn \<times> world + world" where
  "add_todo_entry w todo_file folder_name =
     (if \<not> path_exists (files w) todo_file then Inr w
      else case read_text w todo_file of
        Inl e \<Rightarrow> Inl (e, w)
      | Inr content \<Rightarrow>
          (case re_search (todo_pattern folder_name) content of
             Inl e \<Rightarrow> Inl (e, w)
           | Inr True \<Rightarrow> Inr w
           | Inr False \<Rightarrow>
               (case append_text w todo_file (todo_entry folder_name) of
                  Inl e \<Rightarrow> Inl e
                | Inr w' \<Rightarrow> Inr (log_info w' (TodoAdded folder_name)))))"

text \<open>The words of the specification: the lines of a text, the heading and the checklist
  line of an entry, and a heading for a name at the start of a line of a document.\<close>

fun split_lines :: "string \<Rightarrow> string list" where
  "split_lines [] = [[]]"
| "split_lines (c # cs) =
     (if c = newline then [] # split_lines cs
      else case split_lines cs of
             [] \<Rightarrow> [[c]]
           | l # ls \<Rightarrow> (c # l) # ls)"

definition heading_line :: "string \<Rightarrow> string" where
  "heading_line name = ''## ['' @ name @ '']('' @ name @ ''/)''"

definition checklist_line :: "string" where
  "checklist_line = ''- [ ] Review and determine next steps''"

definition entry_after_blank_line :: "string \<Rightarrow> string \<Rightarrow> bool" where
  "entry_after_blank_line document name =
     (let ls = split_lines document in
      4 \<le> length ls \<and> drop (length ls - 4) ls = [[], heading_line name, checklist_line, []])"

definition heading_present :: "string \<Rightarrow> string \<Rightarrow> bool" where
  "heading_present name content =
     (\<exists>before text slash rest.
        content = before @ ''## ['' @ text @ '']('' @ name @ slash @ '')'' @ rest \<and>
        (before = [] \<or> last before = newline) \<and>
        newline \<notin> set text \<and>
        (slash = [] \<or> slash = ''/''))"

section \<open>Extraction and process\_zip\_file\<close>

text \<open>\<open>mkdir_from fs base cs\<close> creates the directories \<open>base / c1\<close>, \<open>base / c1 / c2\<close>, ...
  that are missing, and stops at a file in the way: \<open>Path.mkdir(parents=True,
  exist_ok=True)\<close> and \<open>os.makedirs\<close> from the root.\<close>

fun mkdir_from :: "filesystem \<Rightarrow> path \<Rightarrow> path \<Rightarrow> exn \<times> filesystem + filesystem" where
  "mkdir_from fs base [] = Inr fs"
| "mkdir_from fs base (c # cs) =
     (case node_at fs (base @ [c]) of
        Some Dir \<Rightarrow> mkdir_from fs (base @ [c]) cs
      | Some (File _) \<Rightarrow> Inl (FileExistsError, fs)
      | None \<Rightarrow> mkdir_from (fmupd (base @ [c]) Dir fs) (base @ [c]) cs)"

definition mkdir_parents :: "world \<Rightarrow> path \<Rightarrow> exn \<times> world + world" where
  "mkdir_parents w p =
     (case faults w (SysMkdir p) of
        Some e \<Rightarrow> Inl (e, w)
      | None \<Rightarrow>
          (case mkdir_from (files w) [] p of
             Inl (e, fs') \<Rightarrow> Inl (e, w\<lparr>files := fs'\<rparr>)
           | Inr fs' \<Rightarrow> Inr (w\<lparr>files := fs'\<rparr>)))"

text \<open>\<open>os.mkdir\<close>\<close>

definition os_mkdir :: "filesystem \<Rightarrow> path \<Rightarrow> exn + filesystem" where
  "os_mkdir fs p =
     (case node_at fs (butlast p) of
        Some Dir \<Rightarrow>
          (case node_at fs p of
             None \<Rightarrow> Inr (fmupd p Dir fs)
           | Some _ \<Rightarrow> Inl FileExistsError)
      | _ \<Rightarrow> Inl FileNotFoundError)"

text \<open>\<open>open(p, "wb")\<close> and writing the data\<close>

definition write_file :: "filesystem \<Rightarrow> path \<Rightarrow> string \<Rightarrow> exn + filesystem" where
  "write_file fs p data =
     (case node_at fs (butlast p) of
        Some Dir \<Rightarrow>
          (case node_at fs p of
             Some Dir \<Rightarrow> Inl PermissionError
           | _ \<Rightarrow> Inr (fmupd p (File data) fs))
      | _ \<Rightarrow> Inl FileNotFoundError)"

text \<open>\<open>Path.unlink()\<close>\<close>

definition unlink :: "world \<Rightarrow> path \<Rightarrow> exn \<times> world + world" where
  "unlink w p =
     (case faults w (SysUnlink p) of
        Some e \<Rightarrow> Inl (e, w)
      | None \<Rightarrow>
          (case node_at (files w) p of
             Some (File _) \<Rightarrow> Inr (w\<lparr>files := fmdrop p (files w)\<rparr>)
           | Some Dir \<Rightarrow> Inl (PermissionError, w)
           | None \<Rightarrow> Inl (FileNotFoundError, w)))"

text \<open>\<open>zipfile.ZipFile(file_path, "r")\<close>\<close>

definition zip_open :: "world \<Rightarrow> path \<Rightarrow> exn + member list" where
  "zip_open w p =
     (case faults w (SysOpen p) of
        Some e \<Rightarrow> Inl e
      | None \<Rightarrow>
          (case node_at (files w) p of
             Some (File data) \<Rightarrow> unzip w data
           | Some Dir \<Rightarrow> Inl PermissionError
           | None \<Rightarrow> Inl FileNotFoundError))"

text \<open>One member of \<open>extractall\<close>: the directories above the target path are created when
  the path above it does not exist; a directory entry is created unless it is there; a
  file entry is decoded and written.\<close>

definition extract_member :: "world \<Rightarrow> path \<Rightarrow> member \<Rightarrow> exn \<times> world + world" where
  "extract_member w target m =
     (let targetpath = target @ rel m; upperdirs = butlast targetpath in
      case faults w (SysWrite targetpath) of
        Some e \<Rightarrow> Inl (e, w)
      | None \<Rightarrow>
          (case (if path_exists (files w) upperdirs then Inr (files w)
                 else mkdir_from (files w) [] upperdirs) of
             Inl (e, fs1) \<Rightarrow> Inl (e, w\<lparr>files := fs1\<rparr>)
           | Inr fs1 \<Rightarrow>
               (case m of
                  DirEntry _ \<Rightarrow>
                    (if node_at fs1 targetpath = Some Dir then Inr (w\<lparr>files := fs1\<rparr>)
                     else case os_mkdir fs1 targetpath of
                            Inl e \<Rightarrow> Inl (e, w\<lparr>files := fs1\<rparr>)
                          | Inr fs2 \<Rightarrow> Inr (w\<lparr>files := fs2\<rparr>))
                | BadEntry _ e \<Rightarrow> Inl (e, w\<lparr>files := fs1\<rparr>)
                | FileEntry _ data \<Rightarrow>
                    (case write_file fs1 targetpath data of
                       Inl e \<Rightarrow> Inl (e, w\<lparr>files := fs1\<rparr>)
                     | Inr fs2 \<Rightarrow> Inr (w\<lparr>files := fs2\<rparr>)))))"

fun extractall :: "world \<Rightarrow> path \<Rightarrow> member list \<Rightarrow> exn \<times> world + world" where
  "extractall w target [] = Inr w"
| "extractall w target (m # ms) =
     (case extract_member w target m of
        Inl e \<Rightarrow> Inl e
      | Inr w1 \<Rightarrow> extractall w1 target ms)"

text \<open>The first statements of the \<open>try\<close> block, up to the end of \<open>extractall\<close>: the target
  is resolved and created, the archive opened and extracted.\<close>

definition extract_archive :: "world \<Rightarrow> path \<Rightarrow> path \<Rightarrow> exn \<times> world + path \<times> world" where
  "extract_archive w file_path destination =
     (let folder_name = name_stem (path_name file_path);
          extract_to = resolve_extract_path (files w) destination folder_name in
      case mkdir_parents w extract_to of
        Inl e \<Rightarrow> Inl e
      | Inr w1 \<Rightarrow>
          (case zip_open w1 file_path of
             Inl e \<Rightarrow> Inl (e, w1)
           | Inr members \<Rightarrow>
               (case extractall w1 extract_to members of
                  Inl e \<Rightarrow> Inl e
                | Inr w2 \<Rightarrow> Inr (extract_to, w2))))"

text \<open>The \<open>try\<close> block.\<close>

definition process_body :: "world \<Rightarrow> path \<Rightarrow> path \<Rightarrow> path \<Rightarrow> exn \<times> world + world" where
  "process_body w file_path destination todo_file =
     (case extract_archive w file_path destination of
        Inl e \<Rightarrow> Inl e
      | Inr (extract_to, w2) \<Rightarrow>
          (case unlink (log_info w2 (Extracted file_path extract_to)) file_path of
             Inl e \<Rightarrow> Inl e
           | Inr w3 \<Rightarrow>
               add_todo_entry (log_info w3 (Deleted file_path)) todo_file (path_name extract_to)))"

definition process_zip_file ::
  "world \<Rightarrow> path \<Rightarrow> path \<Rightarrow> path \<Rightarrow> int \<Rightarrow> rat \<Rightarrow> exn \<times> world + world" where
  "process_zip_file w file_path destination todo_file lock_retries lock_delay =
     (case wait_for_file_ready w file_path lock_retries lock_delay of
        Inl e \<Rightarrow> Inl e
      | Inr (False, w1) \<Rightarrow>
          Inr (log_info w1 (Timeout file_path (py_int (of_int lock_retries * lock_delay))))
      | Inr (True, w1) \<Rightarrow>
          (case process_body w1 file_path destination todo_file of
             Inl (e, w2) \<Rightarrow> Inr (log_info w2 (Error file_path e))
           | Inr w2 \<Rightarrow> Inr w2))"

section \<open>The sources of candidates\<close>

record fs_event =
  is_directory :: bool
  src_path :: path
  dest_path :: path

record config =
  file_lock_retries :: int
  file_lock_retry_delay_seconds :: rat
  fsw_settle_delay_seconds :: rat

text \<open>\<open>ZipEventHandler._handle\<close>, \<open>on_created\<close> and \<open>on_moved\<close>\<close>

definition handle_path ::
  "world \<Rightarrow> config \<Rightarrow> path \<Rightarrow> path \<Rightarrow> path \<Rightarrow> string \<Rightarrow> exn \<times> world + world" where
  "handle_path w cfg destination todo_file file_path change_type =
     (if str_lower (name_suffix (path_name file_path)) \<noteq> ''.zip'' then Inr w
      else case time_sleep (log_info w (Detected change_type file_path))
                  (fsw_settle_delay_seconds cfg) of
             Inl e \<Rightarrow> Inl e
           | Inr w1 \<Rightarrow>
               process_zip_file w1 file_path destination todo_file
                 (file_lock_retries cfg) (file_lock_retry_delay_seconds cfg))"

definition on_created ::
  "world \<Rightarrow> config \<Rightarrow> path \<Rightarrow> path \<Rightarrow> fs_event \<Rightarrow> exn \<times> world + world" where
  "on_created w cfg destination todo_file event =
     (if \<not> is_directory event
      then handle_path w cfg destination todo_file (src_path event) ''Created''
      else Inr w)"

definition on_moved ::
  "world \<Rightarrow> config \<Rightarrow> path \<Rightarrow> path \<Rightarrow> fs_event \<Rightarrow> exn \<times> world + world" where
  "on_moved w cfg destination todo_file event =
     (if \<not> is_directory event
      then handle_path w cfg destination todo_file (dest_path event) ''Renamed''
      else Inr w)"

text \<open>\<open>watch_folder.glob("*.zip")\<close>: the entries of the watch folder whose name ends in
  \<open>.zip\<close>, compared without case as the platform of the program does; \<open>sorted\<close> orders
  the paths by their case-folded components.\<close>

definition fnmatch_zip :: "string \<Rightarrow> bool" where
  "fnmatch_zip name =
     (4 \<le> length name \<and> str_lower (drop (length name - 4) name) = ''.zip'')"

definition glob_zip :: "filesystem \<Rightarrow> path \<Rightarrow> path list" where
  "glob_zip fs watch_folder =
     sort_key (map str_lower)
       (filter (\<lambda>p. p \<noteq> [] \<and> butlast p = watch_folder \<and> fnmatch_zip (last p))
          (sorted_list_of_set (fmdom' fs)))"

text \<open>The loop of \<open>main\<close> over the existing archives at startup (and over those of a poll
  sweep, which differs in its log line only).\<close>

fun process_existing ::
  "world \<Rightarrow> config \<Rightarrow> path \<Rightarrow> path \<Rightarrow> path list \<Rightarrow> exn \<times> world + world" where
  "process_existing w cfg destination todo_file [] = Inr w"
| "process_existing w cfg destination todo_file (zip_path # rest) =
     (case process_zip_file (log_info w (FoundExisting zip_path)) zip_path destination todo_file
             (file_lock_retries cfg) (file_lock_retry_delay_seconds cfg) of
        Inl e \<Rightarrow> Inl e
      | Inr w1 \<Rightarrow> process_existing w1 cfg destination todo_file rest)"

definition startup_scan ::
  "world \<Rightarrow> config \<Rightarrow> path \<Rightarrow> path \<Rightarrow> path \<Rightarrow> exn \<times> world + world" where
  "startup_scan w cfg watch_folder destination todo_file =
     process_existing w cfg destination todo_file (glob_zip (files w) watch_folder)"

section \<open>Notions of the statements and example worlds\<close>

text \<open>What the pattern of \<open>add_todo_entry\<close> compiles to.\<close>

definition heading_items :: "string \<Rightarrow> item list" where
  "heading_items name =
     [Bol, One (Lit (CHR ''#'')), One (Lit (CHR ''#'')), One (Lit (CHR '' '')),
      One (Lit (CHR ''['')), Many Dot, One (Lit (CHR '']'')), One (Lit (CHR ''(''))]
     @ map (\<lambda>c. One (Lit c)) name
     @ [Maybe (Lit (CHR ''/'')), One (Lit (CHR '')''))]"

text \<open>The world at a later time.\<close>

definition at_time :: "world \<Rightarrow> rat \<Rightarrow> world" where
  "at_time w t = w\<lparr>clock := t\<rparr>"



text \<open>The directories above the target path, as \<open>extract_member\<close> makes them.\<close>

definition upper_made :: "filesystem \<Rightarrow> path \<Rightarrow> (exn \<times> filesystem) + filesystem" where
  "upper_made fs upperdirs =
     (if path_exists fs upperdirs then Inr fs else mkdir_from fs [] upperdirs)"


text \<open>A world whose archives all decode to the given members.\<close>

definition zip_world :: "filesystem \<Rightarrow> member list \<Rightarrow> world" where
  "zip_world fs ms =
     \<lparr>files = fs, log_lines = [], clock = 0, locked = (\<lambda>p t. False),
      faults = (\<lambda>c. None), unzip = (\<lambda>d. Inr ms)\<rparr>"

text \<open>Worlds for the examples: no call is refused; nothing is locked, or everything is.\<close>

definition quiet_world :: "filesystem \<Rightarrow> world" where
  "quiet_world fs =
     \<lparr>files = fs, log_lines = [], clock = 0, locked = (\<lambda>p t. False),
      faults = (\<lambda>c. None), unzip = (\<lambda>d. Inl BadZipFile)\<rparr>"


definition example_config :: config where
  "example_config =
     \<lparr>file_lock_retries = 1, file_lock_retry_delay_seconds = 2, fsw_settle_delay_seconds = 3\<rparr>"

section \<open>Properties of resolve\_extract\_path\<close>

lemma find_free_spec:
  "counter \<le> find_free fs d n counter \<and>
   \<not> path_exists fs (d @ [suffixed n (find_free fs d n counter)]) \<and>
   (\<forall>j. counter \<le> j \<and> j < find_free fs d n counter \<longrightarrow> path_exists fs (d @ [suffixed n j]))"
proof (induction fs d n counter rule: find_free.induct)
  case (1 fs d n counter)
  show ?case
  proof (cases "path_exists fs (d @ [suffixed n counter])")
    case True
    then have eq: "find_free fs d n counter = find_free fs d n (counter + 1)"
      by (subst find_free.simps) simp
    from "1.IH" [OF True] show ?thesis
      unfolding eq using True
      by (metis Suc_eq_plus1 Suc_leD le_antisym not_less_eq_eq)
  next
    case False
    then have "find_free fs d n counter = counter" by (subst find_free.simps) simp
    with False show ?thesis by auto
  qed
qed



lemma resolve_extract_path_free: "\<not> path_exists fs (resolve_extract_path fs d n)"
  using find_free_spec [of 2 fs d n] by (simp add: resolve_extract_path_def Let_def)





section \<open>Properties of the pattern\<close>

lemma tokenize_plain: "c \<noteq> backslash \<Longrightarrow> tokenize (c # cs) = tok1 c # tokenize cs"
  by (cases cs) simp_all

lemma special_not_alnum: "c \<in> set re_special_chars \<Longrightarrow> \<not> ascii_alnum c"
  by (auto simp: re_special_chars_def ascii_alnum_def backslash_def)

lemma plain_tok1: "c \<notin> set re_special_chars \<Longrightarrow> c \<noteq> backslash \<and> tok1 c = TChar c"
  by (auto simp: re_special_chars_def tok1_def backslash_def)

lemma tokenize_escape: "tokenize (re_escape s @ rest) = map TChar s @ tokenize rest"
proof (induction s)
  case Nil
  show ?case by (simp add: re_escape_def)
next
  case (Cons c s)
  have step: "re_escape (c # s) = (if c \<in> set re_special_chars then [backslash, c] else [c]) @ re_escape s"
    by (simp add: re_escape_def)
  show ?case
  proof (cases "c \<in> set re_special_chars")
    case True
    then show ?thesis using Cons special_not_alnum [OF True] by (simp add: step)
  next
    case False
    then show ?thesis using Cons plain_tok1 [OF False] by (simp add: step tokenize_plain)
  qed
qed

lemma items_of_char:
  "ts = [] \<or> (hd ts \<noteq> TStar \<and> hd ts \<noteq> TQuest) \<Longrightarrow>
   items_of (TChar c # ts) = map_option (Cons (One (Lit c))) (items_of ts)"
  by (cases ts; cases "hd ts") auto

lemma items_of_chars:
  "ts = [] \<or> (hd ts \<noteq> TStar \<and> hd ts \<noteq> TQuest) \<Longrightarrow>
   items_of (map TChar s @ ts) = map_option ((@) (map (\<lambda>c. One (Lit c)) s)) (items_of ts)"
proof (induction s)
  case Nil
  show ?case by (simp add: option.map_ident)
next
  case (Cons c s)
  have "map TChar s @ ts = [] \<or> (hd (map TChar s @ ts) \<noteq> TStar \<and> hd (map TChar s @ ts) \<noteq> TQuest)"
    using Cons.prems by (cases s) auto
  then have "items_of (TChar c # map TChar s @ ts)
           = map_option (Cons (One (Lit c))) (items_of (map TChar s @ ts))"
    by (rule items_of_char)
  then show ?case using Cons by (simp add: option.map_comp comp_def)
qed

lemma re_compile_todo_pattern: "re_compile (todo_pattern name) = Some (heading_items name)"
proof -
  have t: "tokenize (''/?'' @ [backslash] @ '')'') = [TChar (CHR ''/''), TQuest, TChar (CHR '')'')]"
    by (simp add: tok1_def backslash_def ascii_alnum_def)
  have "drop 4 (todo_pattern name)
      = ''^## '' @ [backslash] @ ''[.*'' @ [backslash] @ '']'' @ [backslash] @ ''(''
         @ re_escape name @ (''/?'' @ [backslash] @ '')'')"
    by (simp add: todo_pattern_def)
  then have "tokenize (drop 4 (todo_pattern name))
      = [TBol, TChar (CHR ''#''), TChar (CHR ''#''), TChar (CHR '' ''), TChar (CHR ''[''), TDot, TStar,
         TChar (CHR '']''), TChar (CHR ''('')] @ map TChar name @ [TChar (CHR ''/''), TQuest, TChar (CHR '')'')]"
    by (simp add: tokenize_escape t tok1_def backslash_def ascii_alnum_def)
  moreover have "items_of (map TChar ('']('' @ name) @ [TChar (CHR ''/''), TQuest, TChar (CHR '')'')])
      = Some (map (\<lambda>c. One (Lit c)) ('']('' @ name) @ [Maybe (Lit (CHR ''/'')), One (Lit (CHR '')''))])"
    by (subst items_of_chars) simp_all
  ultimately have "items_of (tokenize (drop 4 (todo_pattern name))) = Some (heading_items name)"
    by (simp add: heading_items_def)
  moreover have "take 4 (todo_pattern name) = ''(?m)''" by (simp add: todo_pattern_def)
  ultimately show ?thesis by (simp add: re_compile_def)
qed

lemma match_here_logic:
  "match_here (Bol # r) bol s \<longleftrightarrow> bol \<and> match_here r bol s"
  "match_here (One a # r) bol (x # s) \<longleftrightarrow> atom_matches a x \<and> match_here r (x = newline) s"
  "match_here (Many a # r) bol (x # s) \<longleftrightarrow>
     (atom_matches a x \<and> match_here (Many a # r) (x = newline) s) \<or> match_here r bol (x # s)"
  "match_here (Maybe a # r) bol (x # s) \<longleftrightarrow>
     (atom_matches a x \<and> match_here r (x = newline) s) \<or> match_here r bol (x # s)"
  "search_from items bol (x # s) \<longleftrightarrow>
     match_here items bol (x # s) \<or> search_from items (x = newline) s"
  by auto

declare match_here.simps(2,4,6,8) [simp del] search_from.simps(2) [simp del]
declare match_here_logic [simp]

lemma match_here_One_bol: "match_here (One a # r) b s = match_here (One a # r) b' s"
  by (cases s) simp_all

lemma match_here_lits:
  "match_here (map (\<lambda>c. One (Lit c)) l @ r) bol s \<longleftrightarrow>
     (\<exists>s'. s = l @ s' \<and> match_here r (if l = [] then bol else last l = newline) s')"
proof (induction l arbitrary: bol s)
  case Nil
  show ?case by simp
next
  case (Cons c l)
  show ?case
  proof (cases s)
    case Nil
    then show ?thesis by simp
  next
    case (Cons x s0)
    show ?thesis
      unfolding Cons using Cons.IH [of "x = newline" s0] by (cases "l = []") auto
  qed
qed

lemma match_here_many_dot:
  "match_here (Many Dot # One a # r) bol s \<longleftrightarrow>
     (\<exists>t s'. s = t @ s' \<and> newline \<notin> set t \<and> match_here (One a # r) True s')"
proof (induction s arbitrary: bol)
  case Nil
  show ?case by simp
next
  case (Cons x s)
  show ?case
  proof
    assume "match_here (Many Dot # One a # r) bol (x # s)"
    then consider "x \<noteq> newline" "match_here (Many Dot # One a # r) (x = newline) s"
      | "match_here (One a # r) bol (x # s)" by auto
    then show "\<exists>t s'. x # s = t @ s' \<and> newline \<notin> set t \<and> match_here (One a # r) True s'"
    proof cases
      case 1
      with Cons.IH obtain t s' where "s = t @ s'" "newline \<notin> set t" "match_here (One a # r) True s'"
        by blast
      with 1(1) have "x # s = (x # t) @ s' \<and> newline \<notin> set (x # t) \<and> match_here (One a # r) True s'"
        by auto
      then show ?thesis by blast
    next
      case 2
      then have "x # s = [] @ (x # s) \<and> newline \<notin> set [] \<and> match_here (One a # r) True (x # s)"
        using match_here_One_bol [of a r bol "x # s" True] by simp
      then show ?thesis by blast
    qed
  next
    assume "\<exists>t s'. x # s = t @ s' \<and> newline \<notin> set t \<and> match_here (One a # r) True s'"
    then obtain t s' where ts: "x # s = t @ s'" "newline \<notin> set t" "match_here (One a # r) True s'"
      by blast
    show "match_here (Many Dot # One a # r) bol (x # s)"
    proof (cases t)
      case Nil
      with ts have "match_here (One a # r) bol (x # s)"
        using match_here_One_bol [of a r bol "x # s" True] by simp
      then show ?thesis by simp
    next
      case (Cons y t')
      with ts have "x = y" "s = t' @ s'" "x \<noteq> newline" "newline \<notin> set t'" by auto
      with ts(3) Cons.IH [of "x = newline"] have "match_here (Many Dot # One a # r) (x = newline) s"
        by blast
      with \<open>x \<noteq> newline\<close> show ?thesis by simp
    qed
  qed
qed

lemma match_here_slash_paren:
  "match_here [Maybe (Lit (CHR ''/'')), One (Lit (CHR '')''))] bol s \<longleftrightarrow>
     (\<exists>slash rest. s = slash @ '')'' @ rest \<and> (slash = [] \<or> slash = ''/''))"
proof (cases s)
  case Nil
  then show ?thesis by simp
next
  case (Cons x s0)
  show ?thesis
  proof (cases s0)
    case Nil
    with Cons show ?thesis by (auto simp: Cons_eq_append_conv)
  next
    case (Cons y s1)
    with \<open>s = x # s0\<close> show ?thesis by (auto simp: Cons_eq_append_conv)
  qed
qed

lemma search_from_iff:
  "search_from items bol s \<longleftrightarrow>
     (\<exists>before rest. s = before @ rest \<and>
        match_here items (if before = [] then bol else last before = newline) rest)"
proof (induction s arbitrary: bol)
  case Nil
  show ?case by simp
next
  case (Cons x s)
  show ?case
  proof
    assume "search_from items bol (x # s)"
    then consider "match_here items bol (x # s)" | "search_from items (x = newline) s" by auto
    then show "\<exists>before rest. x # s = before @ rest \<and>
        match_here items (if before = [] then bol else last before = newline) rest"
    proof cases
      case 1
      then have "x # s = [] @ (x # s) \<and>
        match_here items (if [] = ([]::string) then bol else last [] = newline) (x # s)" by simp
      then show ?thesis by blast
    next
      case 2
      with Cons.IH obtain before rest where br: "s = before @ rest"
        "match_here items (if before = [] then x = newline else last before = newline) rest"
        by blast
      then have "x # s = (x # before) @ rest \<and>
        match_here items (if x # before = [] then bol else last (x # before) = newline) rest"
        by (cases "before = []") auto
      then show ?thesis by blast
    qed
  next
    assume "\<exists>before rest. x # s = before @ rest \<and>
        match_here items (if before = [] then bol else last before = newline) rest"
    then obtain before rest where br: "x # s = before @ rest"
        "match_here items (if before = [] then bol else last before = newline) rest" by blast
    show "search_from items bol (x # s)"
    proof (cases before)
      case Nil
      with br have "rest = x # s" "match_here items bol rest" by simp_all
      then show ?thesis by simp
    next
      case (Cons y b')
      with br(1) have e: "x = y" "s = b' @ rest" by simp_all
      have "(last before = newline) = (if b' = [] then x = newline else last b' = newline)"
        using Cons e by simp
      with br(2) Cons e have "s = b' @ rest"
        "match_here items (if b' = [] then x = newline else last b' = newline) rest"
        by simp_all
      with Cons.IH [of "x = newline"] have "search_from items (x = newline) s" by blast
      then show ?thesis by simp
    qed
  qed
qed

lemma match_here_heading:
  "match_here (heading_items name) bol s \<longleftrightarrow>
     (bol \<and> (\<exists>text slash rest. s = ''## ['' @ text @ '']('' @ name @ slash @ '')'' @ rest \<and>
         newline \<notin> set text \<and> (slash = [] \<or> slash = ''/'')))"
proof -
  let ?tail = "[Maybe (Lit (CHR ''/'')), One (Lit (CHR '')''))]"
  let ?mid = "map (\<lambda>c. One (Lit c)) ('']('' @ name) @ ?tail"
  have h: "heading_items name = Bol # map (\<lambda>c. One (Lit c)) ''## ['' @ Many Dot # ?mid"
    by (simp add: heading_items_def)
  have mid: "\<And>b u. match_here ?mid b u \<longleftrightarrow>
      (\<exists>slash rest. u = '']('' @ name @ slash @ '')'' @ rest \<and> (slash = [] \<or> slash = ''/''))"
  proof -
    fix b u
    show "match_here ?mid b u \<longleftrightarrow>
      (\<exists>slash rest. u = '']('' @ name @ slash @ '')'' @ rest \<and> (slash = [] \<or> slash = ''/''))"
      (is "?L \<longleftrightarrow> ?R")
    proof
      assume ?L
      then obtain s' where "u = ('']('' @ name) @ s'"
        "match_here ?tail (if '']('' @ name = [] then b else last ('']('' @ name) = newline) s'"
        unfolding match_here_lits by blast
      moreover from this(2) obtain slash rest where
        "s' = slash @ '')'' @ rest" "slash = [] \<or> slash = ''/''"
        unfolding match_here_slash_paren by blast
      ultimately have "u = '']('' @ name @ slash @ '')'' @ rest \<and> (slash = [] \<or> slash = ''/'')"
        by simp
      then show ?R by blast
    next
      assume ?R
      then obtain slash rest where
        u: "u = '']('' @ name @ slash @ '')'' @ rest" "slash = [] \<or> slash = ''/''" by blast
      have "match_here ?tail (if '']('' @ name = [] then b else last ('']('' @ name) = newline)
              (slash @ '')'' @ rest)"
        unfolding match_here_slash_paren using u(2) by blast
      moreover have "u = ('']('' @ name) @ (slash @ '')'' @ rest)" using u(1) by simp
      ultimately show ?L unfolding match_here_lits by blast
    qed
  qed
  have mid': "?mid = One (Lit (CHR '']'')) # map (\<lambda>c. One (Lit c)) (''('' @ name) @ ?tail" by simp
  have star: "\<And>b u. match_here (Many Dot # ?mid) b u \<longleftrightarrow>
      (\<exists>text slash rest. u = text @ '']('' @ name @ slash @ '')'' @ rest \<and>
         newline \<notin> set text \<and> (slash = [] \<or> slash = ''/''))"
  proof -
    fix b u
    have "match_here (Many Dot # ?mid) b u \<longleftrightarrow>
        (\<exists>t s'. u = t @ s' \<and> newline \<notin> set t \<and> match_here ?mid True s')"
      unfolding mid' by (rule match_here_many_dot)
    also have "\<dots> \<longleftrightarrow> (\<exists>text slash rest. u = text @ '']('' @ name @ slash @ '')'' @ rest \<and>
         newline \<notin> set text \<and> (slash = [] \<or> slash = ''/''))"
      unfolding mid by blast
    finally show "match_here (Many Dot # ?mid) b u \<longleftrightarrow>
      (\<exists>text slash rest. u = text @ '']('' @ name @ slash @ '')'' @ rest \<and>
         newline \<notin> set text \<and> (slash = [] \<or> slash = ''/''))" .
  qed
  have "match_here (heading_items name) bol s \<longleftrightarrow>
      (bol \<and> match_here (map (\<lambda>c. One (Lit c)) ''## ['' @ Many Dot # ?mid) bol s)"
    unfolding h by simp
  also have "\<dots> \<longleftrightarrow> (bol \<and> (\<exists>s'. s = ''## ['' @ s' \<and> match_here (Many Dot # ?mid) False s'))"
    unfolding match_here_lits by (simp add: newline_def)
  also have "\<dots> \<longleftrightarrow> (bol \<and> (\<exists>text slash rest. s = ''## ['' @ text @ '']('' @ name @ slash @ '')'' @ rest \<and>
         newline \<notin> set text \<and> (slash = [] \<or> slash = ''/'')))"
    unfolding star by blast
  finally show ?thesis .
qed

lemma search_heading: "search_from (heading_items name) True content \<longleftrightarrow> heading_present name content"
proof -
  have "search_from (heading_items name) True content \<longleftrightarrow>
     (\<exists>before rest. content = before @ rest \<and> (before = [] \<or> last before = newline) \<and>
        (\<exists>text slash rest'. rest = ''## ['' @ text @ '']('' @ name @ slash @ '')'' @ rest' \<and>
         newline \<notin> set text \<and> (slash = [] \<or> slash = ''/'')))"
    unfolding search_from_iff match_here_heading by (simp only: if_bool_eq_disj simp_thms) blast
  also have "\<dots> \<longleftrightarrow> heading_present name content"
    unfolding heading_present_def by blast
  finally show ?thesis .
qed

declare match_here_logic [simp del]
declare match_here.simps(2,4,6,8) [simp] search_from.simps(2) [simp]

lemma re_search_todo_pattern:
  "re_search (todo_pattern name) content = Inr (heading_present name content)"
  by (simp add: re_search_def re_compile_todo_pattern search_heading)

section \<open>Properties of add\_todo\_entry\<close>

lemma read_text_file:
  "read_text w p = Inr c \<longleftrightarrow> faults w (SysRead p) = None \<and> node_at (files w) p = Some (File c)"
  by (auto simp: read_text_def split: option.splits node.splits)

lemma read_text_exists: "read_text w p = Inr c \<Longrightarrow> path_exists (files w) p"
  by (simp add: read_text_file path_exists_def)


lemma add_todo_entry_read:
  assumes "read_text w todo = Inr content"
  shows "add_todo_entry w todo name =
     (if heading_present name content then Inr w
      else case append_text w todo (todo_entry name) of
             Inl e \<Rightarrow> Inl e
           | Inr w' \<Rightarrow> Inr (log_info w' (TodoAdded name)))"
  using assms read_text_exists [OF assms]
  by (simp add: add_todo_entry_def re_search_todo_pattern)

lemma append_text_file:
  assumes "node_at (files w) p = Some (File c)"
  shows "append_text w p entry =
     (case faults w (SysAppend p) of
        Some e \<Rightarrow> Inl (e, w)
      | None \<Rightarrow> Inr (w\<lparr>files := fmupd p (File (c @ entry)) (files w)\<rparr>))"
  using assms by (simp add: append_text_def split: option.splits)

lemma log_info_neq: "log_info w' l \<noteq> w" if "log_lines w' = log_lines w"
proof
  assume "log_info w' l = w"
  then have "log_lines (log_info w' l) = log_lines w" by simp
  with that show False by (simp add: log_info_def)
qed

lemma add_todo_entry_suppressed:
  assumes "read_text w todo_file = Inr content"
  shows "add_todo_entry w todo_file name = Inr w \<longleftrightarrow> heading_present name content"
proof (cases "heading_present name content")
  case True
  then show ?thesis by (simp add: add_todo_entry_read [OF assms])
next
  case False
  from assms have f: "node_at (files w) todo_file = Some (File content)"
    by (simp add: read_text_file)
  have "add_todo_entry w todo_file name \<noteq> Inr w"
  proof (cases "faults w (SysAppend todo_file)")
    case None
    then have "add_todo_entry w todo_file name =
        Inr (log_info (w\<lparr>files := fmupd todo_file (File (content @ todo_entry name)) (files w)\<rparr>)
               (TodoAdded name))"
      using False by (simp add: add_todo_entry_read [OF assms] append_text_file [OF f])
    then show ?thesis using log_info_neq by simp
  next
    case (Some e)
    then show ?thesis
      using False by (simp add: add_todo_entry_read [OF assms] append_text_file [OF f])
  qed
  with False show ?thesis by simp
qed



lemma split_lines_nonempty: "split_lines s \<noteq> []"
  by (induction s) (auto split: list.splits)

lemma split_lines_append: "split_lines (a @ newline # b) = split_lines a @ split_lines b"
  by (induction a) (auto simp: split_lines_nonempty split: list.splits)

lemma split_lines_single: "newline \<notin> set s \<Longrightarrow> split_lines s = [s]"
  by (induction s) auto

lemma length_split_lines: "length (split_lines s) = Suc (length (filter (\<lambda>c. c = newline) s))"
proof (induction s)
  case Nil
  show ?case by simp
next
  case (Cons c s)
  obtain l ls where sl: "split_lines s = l # ls"
    using split_lines_nonempty [of s] by (cases "split_lines s") simp_all
  with Cons show ?case by simp
qed

lemma last_split_lines: "last (split_lines s) = [] \<longleftrightarrow> s = [] \<or> last s = newline"
proof (induction s)
  case Nil
  show ?case by simp
next
  case (Cons c s)
  obtain l ls where sl: "split_lines s = l # ls"
    using split_lines_nonempty [of s] by (cases "split_lines s") simp_all
  show ?case
  proof (cases "c = newline")
    case True
    then have "last (split_lines (c # s)) = last (split_lines s)"
      using sl by simp
    moreover have "last (c # s) = newline \<longleftrightarrow> s = [] \<or> last s = newline"
      using True by simp
    ultimately show ?thesis using Cons by simp
  next
    case False
    then have eq: "split_lines (c # s) = (c # l) # ls" using sl by simp
    show ?thesis
    proof (cases "ls = []")
      case True
      then have lhs: "last (split_lines (c # s)) \<noteq> []" using eq by simp
      have "length (split_lines s) = 1" using sl True by simp
      then have "filter (\<lambda>c. c = newline) s = []" by (simp add: length_split_lines)
      then have "newline \<notin> set s" by (auto simp: filter_empty_conv)
      then have "s = [] \<or> last s \<noteq> newline" by (metis last_in_set)
      then have "last (c # s) \<noteq> newline" using False by auto
      with lhs show ?thesis by simp
    next
      case ne: False
      then have "last (split_lines (c # s)) = last (split_lines s)" using eq sl by simp
      moreover have "s \<noteq> []" using sl ne by auto
      ultimately show ?thesis using Cons by simp
    qed
  qed
qed

lemma heading_line_no_newline: "newline \<notin> set name \<Longrightarrow> newline \<notin> set (heading_line name)"
  by (auto simp: heading_line_def newline_def)

lemma checklist_no_newline: "newline \<notin> set checklist_line"
  by (simp add: checklist_line_def newline_def)

lemma todo_entry_lines:
  "todo_entry name = [newline] @ heading_line name @ [newline] @ checklist_line @ [newline]"
  by (simp add: todo_entry_def heading_line_def checklist_line_def)

lemma split_lines_entry:
  assumes "newline \<notin> set name"
  shows "split_lines (content @ todo_entry name)
       = split_lines content @ [heading_line name, checklist_line, []]"
proof -
  have "content @ todo_entry name
      = content @ newline # (heading_line name @ newline # (checklist_line @ newline # []))"
    by (simp add: todo_entry_lines)
  then show ?thesis
    by (simp only: split_lines_append split_lines_single [OF heading_line_no_newline [OF assms]]
          split_lines_single [OF checklist_no_newline] split_lines.simps append.simps)
qed

lemma entry_after_blank_line_iff:
  assumes "newline \<notin> set name"
  shows "entry_after_blank_line (content @ todo_entry name) name
      \<longleftrightarrow> content = [] \<or> last content = newline"
proof -
  obtain ls l where sl: "split_lines content = ls @ [l]"
    using split_lines_nonempty [of content] by (metis append_butlast_last_id)
  then have l: "last (split_lines content) = l" by simp
  have "split_lines (content @ todo_entry name) = ls @ [l, heading_line name, checklist_line, []]"
    by (simp add: split_lines_entry [OF assms] sl)
  then have "entry_after_blank_line (content @ todo_entry name) name \<longleftrightarrow> l = []"
    by (simp add: entry_after_blank_line_def Let_def)
  with l last_split_lines [of content] show ?thesis by simp
qed




lemmas todo_eval =
  add_todo_entry_def path_exists_def node_at_def read_text_def append_text_def quiet_world_def
  re_search_def re_compile_def todo_pattern_def re_escape_def re_special_chars_def
  backslash_def tok1_def ascii_alnum_def newline_def todo_entry_def log_info_def


text \<open>
  C10. The check for an existing entry looks at the link target of a heading only: given
  the text of the task document, \<open>add_todo_entry\<close> leaves everything as it is exactly when
  the document has, at the start of a line, \<open>## [\<close>, any text of that line, \<open>](\<close>, the folder
  name taken literally, an optional \<open>/\<close> and \<open>)\<close>. The pattern is built with \<open>re.escape\<close> and
  compiled, so the characters of the name that the pattern language reads as operators
  stand for themselves.
\<close>

theorem add_todo_entry_suppressed_iff:
  assumes "read_text w todo_file = Inr content"
  shows "add_todo_entry w todo_file name = Inr w \<longleftrightarrow> heading_present name content"
  using assms by (rule add_todo_entry_suppressed)


theorem add_todo_entry_suppressed_iff_witness:
  "read_text (quiet_world (fmupd [''todo.md''] (File ''# T\<newline>## [Old](my.proj)\<newline>'') fmempty))
      [''todo.md''] = Inr ''# T\<newline>## [Old](my.proj)\<newline>''
   \<and> heading_present ''my.proj'' ''# T\<newline>## [Old](my.proj)\<newline>''
   \<and> \<not> heading_present ''my.proj'' ''# T\<newline>## [Old](my-proj)\<newline>''"
proof -
  let ?w = "quiet_world (fmupd [''todo.md''] (File ''# T\<newline>## [Old](my.proj)\<newline>'') fmempty)"
  let ?v = "quiet_world (fmupd [''todo.md''] (File ''# T\<newline>## [Old](my-proj)\<newline>'') fmempty)"
  have r: "read_text ?w [''todo.md''] = Inr ''# T\<newline>## [Old](my.proj)\<newline>''"
    by (simp add: read_text_def quiet_world_def node_at_def)
  have r': "read_text ?v [''todo.md''] = Inr ''# T\<newline>## [Old](my-proj)\<newline>''"
    by (simp add: read_text_def quiet_world_def node_at_def)
  have a: "add_todo_entry ?w [''todo.md''] ''my.proj'' = Inr ?w"
    by (simp add: todo_eval)
  have a': "add_todo_entry ?v [''todo.md''] ''my.proj'' \<noteq> Inr ?v"
    by (simp add: todo_eval)
  from add_todo_entry_suppressed_iff [OF r, of "''my.proj''"] a
       add_todo_entry_suppressed_iff [OF r', of "''my.proj''"] a' r
  show ?thesis by blast
qed






text \<open>
  C9 (as stated: preceded by a blank line for every prior content). After a document
  \<open>x\<close> that does not end in a newline, the newline in front of the entry ends the line
  \<open>x\<close>, and the heading follows that line directly.
\<close>

theorem add_todo_entry_entry_shape_counterexample:
  "add_todo_entry (quiet_world (fmupd [''todo.md''] (File ''x'') fmempty)) [''todo.md''] ''n''
     = Inr (log_info (quiet_world (fmupd [''todo.md'']
              (File ''x\<newline>## [n](n/)\<newline>- [ ] Review and determine next steps\<newline>'') fmempty))
             (TodoAdded ''n'')) \<and>
   \<not> entry_after_blank_line
        ''x\<newline>## [n](n/)\<newline>- [ ] Review and determine next steps\<newline>'' ''n''"
  by (simp add: todo_eval entry_after_blank_line_def heading_line_def checklist_line_def)

text \<open>
  C9 (amended). Whenever \<open>add_todo_entry\<close> changes the file system, it has replaced the
  text of the task document by that text followed by a newline, the heading line
  \<open>## [name](name/)\<close>, a newline, the checklist line and a newline, and nothing else. For a
  name without a newline these are the lines of the old text followed by the heading line,
  the checklist line and the empty rest, and a blank line stands before the heading exactly
  when the old text is empty or ends in a newline.
\<close>

theorem add_todo_entry_entry_shape:
  assumes "node_at (files w) todo_file = Some (File content)"
    and "add_todo_entry w todo_file name = Inr w1"
    and "files w1 \<noteq> files w"
  shows "files w1 = fmupd todo_file
            (File (content @ [newline] @ heading_line name @ [newline] @ checklist_line @ [newline]))
            (files w)
       \<and> (newline \<notin> set name \<longrightarrow>
            split_lines (content @ [newline] @ heading_line name @ [newline] @ checklist_line @ [newline])
              = split_lines content @ [heading_line name, checklist_line, []]
          \<and> (entry_after_blank_line
                (content @ [newline] @ heading_line name @ [newline] @ checklist_line @ [newline]) name
              \<longleftrightarrow> content = [] \<or> last content = newline))"
proof -
  have ex: "path_exists (files w) todo_file" using assms(1) by (simp add: path_exists_def)
  have rd: "read_text w todo_file = Inr content"
  proof (cases "faults w (SysRead todo_file)")
    case None
    with assms(1) show ?thesis by (simp add: read_text_file)
  next
    case (Some e)
    then have "read_text w todo_file = Inl e" by (simp add: read_text_def)
    with ex assms(2) show ?thesis by (simp add: add_todo_entry_def)
  qed
  have np: "\<not> heading_present name content"
  proof
    assume "heading_present name content"
    with assms(2) have "w1 = w" by (simp add: add_todo_entry_read [OF rd])
    with assms(3) show False by simp
  qed
  with assms(2) have "files w1 = fmupd todo_file (File (content @ todo_entry name)) (files w)"
    by (auto simp: add_todo_entry_read [OF rd] append_text_file [OF assms(1)] log_info_def
        split: option.splits)
  then show ?thesis
    using split_lines_entry [of name content] entry_after_blank_line_iff [of name content]
    by (simp add: todo_entry_lines)
qed

theorem add_todo_entry_entry_shape_witness:
  "files (log_info (quiet_world (fmupd [''todo.md''] (File (''# T\<newline>'' @ todo_entry ''n'')) fmempty))
             (TodoAdded ''n''))
     = fmupd [''todo.md'']
         (File (''# T\<newline>'' @ [newline] @ heading_line ''n'' @ [newline] @ checklist_line @ [newline]))
         (files (quiet_world (fmupd [''todo.md''] (File ''# T\<newline>'') fmempty))) \<and>
   entry_after_blank_line
     (''# T\<newline>'' @ [newline] @ heading_line ''n'' @ [newline] @ checklist_line @ [newline]) ''n''"
proof -
  let ?w = "quiet_world (fmupd [''todo.md''] (File ''# T\<newline>'') fmempty)"
  let ?w1 = "log_info (quiet_world (fmupd [''todo.md''] (File (''# T\<newline>'' @ todo_entry ''n'')) fmempty))
             (TodoAdded ''n'')"
  have a: "node_at (files ?w) [''todo.md''] = Some (File ''# T\<newline>'')"
    by (simp add: quiet_world_def node_at_def)
  have b: "add_todo_entry ?w [''todo.md''] ''n'' = Inr ?w1"
    by (simp add: todo_eval)
  have "fmlookup (files ?w1) [''todo.md''] \<noteq> fmlookup (files ?w) [''todo.md'']"
    by (simp add: quiet_world_def log_info_def todo_entry_def)
  then have c: "files ?w1 \<noteq> files ?w" by metis
  have n: "newline \<notin> set ''n''" by (simp add: newline_def)
  note t = add_todo_entry_entry_shape [OF a b c]
  from t have t1: "files ?w1 = fmupd [''todo.md'']
         (File (''# T\<newline>'' @ [newline] @ heading_line ''n'' @ [newline] @ checklist_line @ [newline]))
         (files ?w)" by (rule conjunct1)
  from t n have t2: "entry_after_blank_line
     (''# T\<newline>'' @ [newline] @ heading_line ''n'' @ [newline] @ checklist_line @ [newline]) ''n''
     \<longleftrightarrow> ''# T\<newline>'' = [] \<or> last ''# T\<newline>'' = newline" by blast
  have "last ''# T\<newline>'' = newline" by (simp add: newline_def)
  with t1 t2 show ?thesis by blast
qed

section \<open>Properties of the readiness probe and of the timeout\<close>

lemma at_time_now [simp]: "at_time w (clock w) = w"
  by (simp add: at_time_def)

lemma at_time_twice [simp]: "at_time (at_time w s) t = at_time w t"
  by (simp add: at_time_def)

lemma at_time_fields [simp]:
  "files (at_time w t) = files w" "log_lines (at_time w t) = log_lines w"
  "clock (at_time w t) = t" "locked (at_time w t) = locked w"
  "faults (at_time w t) = faults w" "unzip (at_time w t) = unzip w"
  by (simp_all add: at_time_def)

lemma time_sleep_at: "time_sleep w d = (if d < 0 then Inl (ValueError, w) else Inr (at_time w (clock w + d)))"
  by (simp add: time_sleep_def at_time_def)


lemma wait_loop_state:
  "wait_loop w f n d = Inr (b, w1) \<Longrightarrow> \<exists>t. w1 = at_time w t"
proof (induction n arbitrary: w)
  case 0
  then have "w1 = at_time w (clock w)" by simp
  then show ?case by blast
next
  case (Suc n)
  show ?case
  proof (cases "exclusive_open w f")
    case True
    with Suc.prems have "w1 = at_time w (clock w)" by simp
    then show ?thesis by blast
  next
    case False
    with Suc.prems have "\<not> d < 0" and "wait_loop (at_time w (clock w + d)) f n d = Inr (b, w1)"
      by (auto simp: time_sleep_at split: if_splits)
    from Suc.IH [OF this(2)] show ?thesis by auto
  qed
qed

lemma wait_loop_ready:
  "wait_loop w f n d = Inr (True, w1) \<Longrightarrow> exclusive_open w1 f"
proof (induction n arbitrary: w)
  case 0
  then show ?case by simp
next
  case (Suc n)
  show ?case
  proof (cases "exclusive_open w f")
    case True
    with Suc.prems show ?thesis by simp
  next
    case False
    with Suc.prems have "wait_loop (at_time w (clock w + d)) f n d = Inr (True, w1)"
      by (auto simp: time_sleep_at split: if_splits)
    from Suc.IH [OF this] show ?thesis .
  qed
qed

lemma wait_loop_raises:
  "wait_loop w f n d = Inl x \<longleftrightarrow> d < 0 \<and> 0 < n \<and> \<not> exclusive_open w f \<and> x = (ValueError, w)"
proof (cases n)
  case 0
  then show ?thesis by simp
next
  case (Suc m)
  show ?thesis
  proof (cases "d < 0")
    case True
    then show ?thesis using Suc by (auto simp: time_sleep_at)
  next
    case False
    have "\<And>w. wait_loop w f k d \<noteq> Inl x" for k
    proof (induction k)
      case 0
      show ?case by simp
    next
      case (Suc k)
      then show ?case using False by (simp add: time_sleep_at)
    qed
    with False show ?thesis by simp
  qed
qed

lemma wait_loop_returns:
  "0 \<le> d \<or> n = 0 \<or> exclusive_open w f \<Longrightarrow> \<exists>b w1. wait_loop w f n d = Inr (b, w1)"
proof -
  assume a: "0 \<le> d \<or> n = 0 \<or> exclusive_open w f"
  have "\<And>x. wait_loop w f n d \<noteq> Inl x"
    using a by (auto simp: wait_loop_raises)
  then show ?thesis by (cases "wait_loop w f n d") auto
qed












section \<open>Properties of the extraction and of process\_zip\_file\<close>

lemma node_at_fmupd:
  "p \<noteq> [] \<Longrightarrow> node_at (fmupd p v fs) q = (if q = p then Some v else node_at fs q)"
  by (auto simp: node_at_def)

lemma mkdir_from_keeps:
  assumes "mkdir_from fs base cs = Inr fs' \<or> mkdir_from fs base cs = Inl (e, fs')"
    and "node_at fs q = Some n"
  shows "node_at fs' q = Some n"
  using assms
proof (induction cs arbitrary: fs base)
  case Nil
  then show ?case by simp
next
  case (Cons c cs)
  show ?case
  proof (cases "node_at fs (base @ [c])")
    case None
    with Cons.prems(2) have "q \<noteq> base @ [c]" by auto
    then have "node_at (fmupd (base @ [c]) Dir fs) q = Some n"
      using Cons.prems(2) by (simp add: node_at_fmupd)
    moreover from Cons.prems(1) None
    have "mkdir_from (fmupd (base @ [c]) Dir fs) (base @ [c]) cs = Inr fs'
        \<or> mkdir_from (fmupd (base @ [c]) Dir fs) (base @ [c]) cs = Inl (e, fs')" by simp
    ultimately show ?thesis by (rule Cons.IH [rotated])
  next
    case (Some k)
    show ?thesis
    proof (cases k)
      case Dir
      with Some Cons.prems(1) have "mkdir_from fs (base @ [c]) cs = Inr fs'
        \<or> mkdir_from fs (base @ [c]) cs = Inl (e, fs')" by simp
      then show ?thesis using Cons.prems(2) by (rule Cons.IH)
    next
      case (File x)
      with Some Cons.prems show ?thesis by simp
    qed
  qed
qed

lemma mkdir_from_creates:
  "mkdir_from fs base cs = Inr fs' \<Longrightarrow> cs \<noteq> [] \<Longrightarrow> node_at fs' (base @ cs) = Some Dir"
proof (induction cs arbitrary: fs base)
  case Nil
  then show ?case by simp
next
  case (Cons c cs)
  let ?p = "base @ [c]"
  obtain fs1 where fs1: "mkdir_from fs1 ?p cs = Inr fs'" "node_at fs1 ?p = Some Dir"
  proof (cases "node_at fs ?p")
    case None
    with Cons.prems(1) have "mkdir_from (fmupd ?p Dir fs) ?p cs = Inr fs'" by simp
    moreover have "node_at (fmupd ?p Dir fs) ?p = Some Dir" by (simp add: node_at_fmupd)
    ultimately show ?thesis by (rule that)
  next
    case (Some k)
    with Cons.prems(1) have "k = Dir" by (cases k) simp_all
    with Some Cons.prems(1) have "mkdir_from fs ?p cs = Inr fs'" by simp
    then show ?thesis using Some \<open>k = Dir\<close> by (intro that) simp_all
  qed
  show ?case
  proof (cases "cs = []")
    case True
    with fs1 show ?thesis by simp
  next
    case False
    from Cons.IH [OF fs1(1) False] show ?thesis by simp
  qed
qed

lemma os_mkdir_keeps:
  "os_mkdir fs p = Inr fs' \<Longrightarrow> node_at fs q = Some n \<Longrightarrow> node_at fs' q = Some n"
  by (auto simp: os_mkdir_def node_at_def split: option.splits node.splits if_splits)


lemma write_file_keeps:
  "write_file fs p data = Inr fs' \<Longrightarrow> q \<noteq> p \<Longrightarrow> node_at fs q = Some n \<Longrightarrow> node_at fs' q = Some n"
  by (auto simp: write_file_def node_at_def split: option.splits node.splits if_splits)


lemma upper_made_keeps:
  "upper_made fs u = Inr fs' \<or> upper_made fs u = Inl (e, fs') \<Longrightarrow>
   node_at fs q = Some n \<Longrightarrow> node_at fs' q = Some n"
  using mkdir_from_keeps [of fs "[]" u fs' e q n]
  by (auto simp: upper_made_def split: if_splits)

lemma extract_member_unfold:
  "extract_member w target m =
     (case faults w (SysWrite (target @ rel m)) of
        Some e \<Rightarrow> Inl (e, w)
      | None \<Rightarrow>
          (case upper_made (files w) (butlast (target @ rel m)) of
             Inl (e, fs1) \<Rightarrow> Inl (e, w\<lparr>files := fs1\<rparr>)
           | Inr fs1 \<Rightarrow>
               (case m of
                  DirEntry _ \<Rightarrow>
                    (if node_at fs1 (target @ rel m) = Some Dir then Inr (w\<lparr>files := fs1\<rparr>)
                     else case os_mkdir fs1 (target @ rel m) of
                            Inl e \<Rightarrow> Inl (e, w\<lparr>files := fs1\<rparr>)
                          | Inr fs2 \<Rightarrow> Inr (w\<lparr>files := fs2\<rparr>))
                | BadEntry _ e \<Rightarrow> Inl (e, w\<lparr>files := fs1\<rparr>)
                | FileEntry _ data \<Rightarrow>
                    (case write_file fs1 (target @ rel m) data of
                       Inl e \<Rightarrow> Inl (e, w\<lparr>files := fs1\<rparr>)
                     | Inr fs2 \<Rightarrow> Inr (w\<lparr>files := fs2\<rparr>)))))"
  by (cases "faults w (SysWrite (target @ rel m))";
      cases "path_exists (files w) (butlast (target @ rel m))";
      simp add: extract_member_def upper_made_def Let_def)

lemma extract_member_keeps:
  assumes r: "extract_member w target m = Inr w' \<or> extract_member w target m = Inl (e, w')"
    and q: "node_at (files w) q = Some n" "q \<noteq> target @ rel m"
  shows "node_at (files w') q = Some n \<and> w' = w\<lparr>files := files w'\<rparr>"
proof (cases "faults w (SysWrite (target @ rel m))")
  case (Some x)
  with r q show ?thesis by (auto simp: extract_member_unfold)
next
  case None
  note nf = this
  show ?thesis
  proof (cases "upper_made (files w) (butlast (target @ rel m))")
    case (Inl x)
    obtain e1 fs1 where x: "x = (e1, fs1)" by (cases x)
    with Inl have "node_at fs1 q = Some n" using upper_made_keeps q(1) by blast
    with r nf Inl x show ?thesis by (auto simp: extract_member_unfold)
  next
    case (Inr fs1)
    then have k1: "node_at fs1 q = Some n" using upper_made_keeps q(1) by blast
    show ?thesis
    proof (cases m)
      case (DirEntry rp)
      show ?thesis
      proof (cases "node_at fs1 (target @ rel m) = Some Dir")
        case True
        with r nf Inr DirEntry k1 show ?thesis by (auto simp: extract_member_unfold)
      next
        case False
        show ?thesis
        proof (cases "os_mkdir fs1 (target @ rel m)")
          case (Inl x)
          with r nf Inr DirEntry k1 False show ?thesis by (auto simp: extract_member_unfold)
        next
          case (Inr fs2)
          then have "node_at fs2 q = Some n" using k1 by (rule os_mkdir_keeps)
          with r nf \<open>upper_made (files w) (butlast (target @ rel m)) = Inr fs1\<close> DirEntry False Inr
          show ?thesis by (auto simp: extract_member_unfold)
        qed
      qed
    next
      case (FileEntry rp data)
      show ?thesis
      proof (cases "write_file fs1 (target @ rel m) data")
        case (Inl x)
        with r nf Inr FileEntry k1 show ?thesis by (auto simp: extract_member_unfold)
      next
        case (Inr fs2)
        then have "node_at fs2 q = Some n" using q(2) k1 by (rule write_file_keeps)
        with r nf \<open>upper_made (files w) (butlast (target @ rel m)) = Inr fs1\<close> FileEntry Inr
        show ?thesis by (auto simp: extract_member_unfold)
      qed
    next
      case (BadEntry rp x)
      with r nf Inr k1 show ?thesis by (auto simp: extract_member_unfold)
    qed
  qed
qed

lemma extract_member_same_world:
  assumes "extract_member w target m = Inr w' \<or> extract_member w target m = Inl (e, w')"
  shows "w' = w\<lparr>files := files w'\<rparr>"
  using assms
  by (auto simp: extract_member_unfold split: option.splits sum.splits prod.splits member.splits if_splits)


lemma extractall_same_world:
  "extractall w target ms = Inr w' \<or> extractall w target ms = Inl (e, w') \<Longrightarrow>
   w' = w\<lparr>files := files w'\<rparr>"
proof (induction ms arbitrary: w)
  case Nil
  then show ?case by auto
next
  case (Cons m ms)
  show ?case
  proof (cases "extract_member w target m")
    case (Inl x)
    with Cons.prems have "extract_member w target m = Inl (e, w')" by simp
    then show ?thesis using extract_member_same_world by blast
  next
    case (Inr w1)
    then have w1: "w1 = w\<lparr>files := files w1\<rparr>" using extract_member_same_world by blast
    from Cons.prems Inr have "extractall w1 target ms = Inr w' \<or> extractall w1 target ms = Inl (e, w')"
      by simp
    from Cons.IH [OF this] have "w' = w1\<lparr>files := files w'\<rparr>" .
    with w1 show ?thesis by (metis world.surjective world.update_convs(1))
  qed
qed

lemma extractall_keeps:
  assumes "extractall w target ms = Inr w' \<or> extractall w target ms = Inl (e, w')"
    and "node_at (files w) q = Some n"
    and "\<forall>m\<in>set ms. q \<noteq> target @ rel m"
  shows "node_at (files w') q = Some n"
  using assms
proof (induction ms arbitrary: w)
  case Nil
  then show ?case by auto
next
  case (Cons m ms)
  from Cons.prems(3) have qm: "q \<noteq> target @ rel m" and qs: "\<forall>m\<in>set ms. q \<noteq> target @ rel m"
    by simp_all
  show ?case
  proof (cases "extract_member w target m")
    case (Inl x)
    with Cons.prems(1) have "extract_member w target m = Inl (e, w')" by simp
    then show ?thesis using extract_member_keeps Cons.prems(2) qm by blast
  next
    case (Inr w1)
    then have k: "node_at (files w1) q = Some n"
      using extract_member_keeps Cons.prems(2) qm by blast
    from Cons.prems(1) Inr have "extractall w1 target ms = Inr w' \<or> extractall w1 target ms = Inl (e, w')"
      by simp
    from Cons.IH [OF this k qs] show ?thesis .
  qed
qed


lemma well_formed_below:
  assumes "well_formed fs" and "\<not> path_exists fs t"
  shows "\<not> path_exists fs (t @ r)"
proof (induction r rule: rev_induct)
  case Nil
  with assms(2) show ?case by simp
next
  case (snoc x r)
  show ?case
  proof
    assume "path_exists fs (t @ r @ [x])"
    then have "t @ r @ [x] \<in> fmdom' fs"
      by (simp add: path_exists_def node_at_def fmlookup_dom'_iff)
    with assms(1) have "node_at fs (butlast (t @ r @ [x])) = Some Dir"
      unfolding well_formed_def by blast
    moreover have "butlast (t @ r @ [x]) = t @ r" by (simp add: butlast_append)
    ultimately have "path_exists fs (t @ r)" by (simp add: path_exists_def)
    with snoc show False by simp
  qed
qed

lemma mkdir_parents_keeps:
  assumes "mkdir_parents w p = Inr w' \<or> mkdir_parents w p = Inl (e, w')"
  shows "(node_at (files w) q = Some n \<longrightarrow> node_at (files w') q = Some n) \<and> w' = w\<lparr>files := files w'\<rparr>"
proof (cases "faults w (SysMkdir p)")
  case (Some x)
  with assms show ?thesis by (auto simp: mkdir_parents_def)
next
  case None
  show ?thesis
  proof (cases "mkdir_from (files w) [] p")
    case (Inl x)
    obtain e1 fs1 where x: "x = (e1, fs1)" by (cases x)
    with Inl have "node_at (files w) q = Some n \<longrightarrow> node_at fs1 q = Some n"
      using mkdir_from_keeps by blast
    with assms None Inl x show ?thesis by (auto simp: mkdir_parents_def)
  next
    case (Inr fs1)
    then have "node_at (files w) q = Some n \<longrightarrow> node_at fs1 q = Some n"
      using mkdir_from_keeps by blast
    with assms None Inr show ?thesis by (auto simp: mkdir_parents_def)
  qed
qed


lemma extract_archive_cases:
  assumes "extract_archive w f d = r"
  obtains (at_mkdir) e w1 where "mkdir_parents w (resolve_extract_path (files w) d (name_stem (path_name f))) = Inl (e, w1)"
      "r = Inl (e, w1)"
    | (at_open) e w1 where "mkdir_parents w (resolve_extract_path (files w) d (name_stem (path_name f))) = Inr w1"
      "zip_open w1 f = Inl e" "r = Inl (e, w1)"
    | (at_member) e w1 ms w2 where "mkdir_parents w (resolve_extract_path (files w) d (name_stem (path_name f))) = Inr w1"
      "zip_open w1 f = Inr ms"
      "extractall w1 (resolve_extract_path (files w) d (name_stem (path_name f))) ms = Inl (e, w2)"
      "r = Inl (e, w2)"
    | (finished) w1 ms w2 where "mkdir_parents w (resolve_extract_path (files w) d (name_stem (path_name f))) = Inr w1"
      "zip_open w1 f = Inr ms"
      "extractall w1 (resolve_extract_path (files w) d (name_stem (path_name f))) ms = Inr w2"
      "r = Inr (resolve_extract_path (files w) d (name_stem (path_name f)), w2)"
proof -
  let ?t = "resolve_extract_path (files w) d (name_stem (path_name f))"
  show ?thesis
  proof (cases "mkdir_parents w ?t")
    case (Inl x)
    obtain e w1 where "x = (e, w1)" by (cases x)
    with Inl assms show ?thesis by (intro at_mkdir [of e w1]) (simp_all add: extract_archive_def Let_def)
  next
    case (Inr w1)
    note m = this
    show ?thesis
    proof (cases "zip_open w1 f")
      case (Inl e)
      with m assms show ?thesis by (intro at_open [of w1 e]) (simp_all add: extract_archive_def Let_def)
    next
      case (Inr ms)
      note z = this
      show ?thesis
      proof (cases "extractall w1 ?t ms")
        case (Inl x)
        obtain e w2 where "x = (e, w2)" by (cases x)
        with Inl m z assms show ?thesis
          by (intro at_member [of w1 ms e w2]) (simp_all add: extract_archive_def Let_def)
      next
        case (Inr w2)
        with m z assms show ?thesis
          by (intro finished [of w1 ms w2]) (simp_all add: extract_archive_def Let_def)
      qed
    qed
  qed
qed

lemma extract_archive_keeps:
  assumes wf: "well_formed (files w)"
    and r: "extract_archive w f d = Inr (t, w') \<or> extract_archive w f d = Inl (e, w')"
    and q: "node_at (files w) q = Some n"
  shows "node_at (files w') q = Some n \<and> w' = w\<lparr>files := files w'\<rparr>"
proof -
  let ?t = "resolve_extract_path (files w) d (name_stem (path_name f))"
  have free: "\<not> path_exists (files w) ?t" by (rule resolve_extract_path_free)
  have away: "q \<noteq> ?t @ x" for x
    using well_formed_below [OF wf free, of x] q by (auto simp: path_exists_def)
  obtain res where res: "extract_archive w f d = res" "res = Inr (t, w') \<or> res = Inl (e, w')"
    using r by blast
  from res(1) show ?thesis
  proof (cases rule: extract_archive_cases)
    case (at_mkdir e1 w1)
    with res(2) have "mkdir_parents w ?t = Inl (e, w')" by auto
    then show ?thesis using mkdir_parents_keeps [of w ?t w' e q n] q by blast
  next
    case (at_open e1 w1)
    with res(2) have "mkdir_parents w ?t = Inr w'" by auto
    then show ?thesis using mkdir_parents_keeps [of w ?t w' e q n] q by blast
  next
    case (at_member e1 w1 ms w2)
    with res(2) have x: "extractall w1 ?t ms = Inl (e, w')" by auto
    from at_member(1) have k1: "node_at (files w1) q = Some n" "w1 = w\<lparr>files := files w1\<rparr>"
      using mkdir_parents_keeps [of w ?t w1 e q n] q by blast+
    have "node_at (files w') q = Some n"
      using extractall_keeps [of w1 ?t ms w' e q n] x k1(1) away by blast
    moreover have "w' = w1\<lparr>files := files w'\<rparr>"
      using extractall_same_world [of w1 ?t ms w' e] x by blast
    ultimately show ?thesis using k1(2) by (metis world.surjective world.update_convs(1))
  next
    case (finished w1 ms w2)
    with res(2) have x: "extractall w1 ?t ms = Inr w'" by auto
    from finished(1) have k1: "node_at (files w1) q = Some n" "w1 = w\<lparr>files := files w1\<rparr>"
      using mkdir_parents_keeps [of w ?t w1 e q n] q by blast+
    have "node_at (files w') q = Some n"
      using extractall_keeps [of w1 ?t ms w' e q n] x k1(1) away by blast
    moreover have "w' = w1\<lparr>files := files w'\<rparr>"
      using extractall_same_world [of w1 ?t ms w' e] x by blast
    ultimately show ?thesis using k1(2) by (metis world.surjective world.update_convs(1))
  qed
qed

lemma wait_ready_facts:
  assumes "wait_for_file_ready w f retries delay = Inr (True, w1)"
  obtains t data where "w1 = at_time w t" "node_at (files w) f = Some (File data)"
proof -
  from assms have l: "wait_loop w f (nat retries) delay = Inr (True, w1)"
    by (simp add: wait_for_file_ready_def)
  from wait_loop_state [OF l] obtain t where t: "w1 = at_time w t" by blast
  from wait_loop_ready [OF l] have "exclusive_open w1 f" .
  then obtain data where "node_at (files w1) f = Some (File data)"
    by (auto simp: exclusive_open_def split: option.splits node.splits)
  with t show ?thesis by (intro that [of t data]) simp_all
qed

lemma process_ready:
  assumes "wait_for_file_ready w f retries delay = Inr (True, w1)"
  shows "process_zip_file w f d t retries delay =
     (case process_body w1 f d t of
        Inl (e, w2) \<Rightarrow> Inr (log_info w2 (Error f e))
      | Inr w2 \<Rightarrow> Inr w2)"
  using assms by (simp add: process_zip_file_def)

lemma process_extraction_error:
  assumes wf: "well_formed (files w)"
    and ready: "wait_for_file_ready w file_path retries delay = Inr (True, w1)"
    and err: "extract_archive w1 file_path destination = Inl (e, w2)"
  shows "process_zip_file w file_path destination todo_file retries delay
           = Inr (log_info w2 (Error file_path e))"
    and "log_lines w2 = log_lines w"
    and "\<exists>data. node_at (files w) file_path = Some (File data)
             \<and> node_at (files w2) file_path = Some (File data)"
    and "node_at (files w) p = Some n \<Longrightarrow> node_at (files w2) p = Some n"
proof -
  from ready obtain t data where w1: "w1 = at_time w t"
    and src: "node_at (files w) file_path = Some (File data)"
    by (rule wait_ready_facts)
  from err have "process_body w1 file_path destination todo_file = Inl (e, w2)"
    by (simp add: process_body_def)
  then show "process_zip_file w file_path destination todo_file retries delay
           = Inr (log_info w2 (Error file_path e))"
    by (simp add: process_ready [OF ready])
  have wf1: "well_formed (files w1)" using wf w1 by simp
  have keep: "node_at (files w2) q = Some k \<and> w2 = w1\<lparr>files := files w2\<rparr>"
    if "node_at (files w1) q = Some k" for q k
    using extract_archive_keeps [OF wf1 _ that, of file_path destination undefined w2 e] err
    by blast
  from keep [of file_path "File data"] src w1
  have s2: "node_at (files w2) file_path = Some (File data)" and same: "w2 = w1\<lparr>files := files w2\<rparr>"
    by simp_all
  from same have "log_lines w2 = log_lines w1" by (metis world.select_convs(2) world.surjective world.update_convs(1))
  then show "log_lines w2 = log_lines w" using w1 by simp
  from src s2 show "\<exists>data. node_at (files w) file_path = Some (File data)
             \<and> node_at (files w2) file_path = Some (File data)" by blast
  show "node_at (files w2) p = Some n" if "node_at (files w) p = Some n"
    using keep [of p n] that w1 by simp
qed

lemmas fs_eval =
  resolve_extract_path_def path_exists_def node_at_def name_stem_def path_name_def
  mkdir_parents_def zip_open_def extract_member_def os_mkdir_def write_file_def Let_def
  extract_archive_def unlink_def process_body_def process_zip_file_def wait_for_file_ready_def
  exclusive_open_def time_sleep_def log_info_def py_int_def



text \<open>
  C3. Whenever the probe has succeeded and the extraction raises (at the creation of the
  target directory, at the opening of the archive or at a member), \<open>process_zip_file\<close>
  returns normally; what it returns is the state at the raise with one more log line, the
  error with its cause, so the archive is not deleted and no task entry is appended. In a
  well-formed file system the archive is the file it was, and every entry that existed
  before, the task document among them, is unchanged.
\<close>

theorem process_extraction_error_kept:
  assumes "well_formed (files w)"
    and "wait_for_file_ready w file_path retries delay = Inr (True, w1)"
    and "extract_archive w1 file_path destination = Inl (e, w2)"
  shows "process_zip_file w file_path destination todo_file retries delay
           = Inr (log_info w2 (Error file_path e))
       \<and> log_lines w2 = log_lines w
       \<and> (\<exists>data. node_at (files w) file_path = Some (File data)
             \<and> node_at (files w2) file_path = Some (File data))
       \<and> (\<forall>p n. node_at (files w) p = Some n \<longrightarrow> node_at (files w2) p = Some n)"
  using process_extraction_error [OF assms] by blast

theorem process_extraction_error_kept_witness:
  "process_zip_file
      (zip_world (fmupd [''w'', ''a.zip''] (File ''PK'') (fmupd [''w''] Dir (fmupd [''dev''] Dir fmempty)))
         [FileEntry [''x.txt''] ''one'', BadEntry [''y.bin''] NotImplementedError])
      [''w'', ''a.zip''] [''dev''] [''dev'', ''todo.md''] 30 2
    = Inr (log_info
        (zip_world (fmupd [''dev'', ''a'', ''x.txt''] (File ''one'') (fmupd [''dev'', ''a''] Dir
            (fmupd [''w'', ''a.zip''] (File ''PK'') (fmupd [''w''] Dir (fmupd [''dev''] Dir fmempty)))))
         [FileEntry [''x.txt''] ''one'', BadEntry [''y.bin''] NotImplementedError])
        (Error [''w'', ''a.zip''] NotImplementedError))"
proof -
  let ?fs = "fmupd [''w'', ''a.zip''] (File ''PK'') (fmupd [''w''] Dir (fmupd [''dev''] Dir fmempty))"
  let ?ms = "[FileEntry [''x.txt''] ''one'', BadEntry [''y.bin''] NotImplementedError]"
  let ?w = "zip_world ?fs ?ms"
  let ?w2 = "zip_world (fmupd [''dev'', ''a'', ''x.txt''] (File ''one'') (fmupd [''dev'', ''a''] Dir ?fs)) ?ms"
  have wf: "well_formed (files ?w)"
    by (simp add: well_formed_def zip_world_def node_at_def)
  have ready: "wait_for_file_ready ?w [''w'', ''a.zip''] 30 2 = Inr (True, ?w)"
    by (simp add: wait_for_file_ready_def eval_nat_numeral exclusive_open_def zip_world_def node_at_def)
  have err: "extract_archive ?w [''w'', ''a.zip''] [''dev''] = Inl (NotImplementedError, ?w2)"
    by (simp add: fs_eval zip_world_def)
  from process_extraction_error_kept [OF wf ready err] show ?thesis by blast
qed






section \<open>Properties of the sources of candidates\<close>

lemma glob_zip_set:
  "set (glob_zip fs watch_folder)
     = {p \<in> fmdom' fs. p \<noteq> [] \<and> butlast p = watch_folder \<and> fnmatch_zip (last p)}"
  by (auto simp: glob_zip_def)

lemma glob_zip_distinct: "distinct (glob_zip fs watch_folder)"
  by (simp add: glob_zip_def)

lemma glob_zip_single:
  assumes "set (glob_zip fs watch_folder) = {p}"
  shows "glob_zip fs watch_folder = [p]"
proof -
  have "length (glob_zip fs watch_folder) = card (set (glob_zip fs watch_folder))"
    using glob_zip_distinct by (simp add: distinct_card)
  with assms have "length (glob_zip fs watch_folder) = 1" by simp
  then obtain x where "glob_zip fs watch_folder = [x]"
    by (cases "glob_zip fs watch_folder") auto
  with assms show ?thesis by simp
qed

lemma rfind_append:
  "rfind c (a @ b) =
     (case rfind c b of Some i \<Rightarrow> Some (length a + i) | None \<Rightarrow> rfind c a)"
  by (induction a) (auto split: option.splits)

lemma lower_char_cases:
  "lower_char c = c \<or> lower_char c \<in> set ''abcdefghijklmnopqrstuvwxyz''"
proof (cases "map_of (zip ''ABCDEFGHIJKLMNOPQRSTUVWXYZ'' ''abcdefghijklmnopqrstuvwxyz'') c")
  case None
  then show ?thesis by (simp add: lower_char_def)
next
  case (Some l)
  then have "l \<in> set ''abcdefghijklmnopqrstuvwxyz''"
    by (meson map_of_SomeD set_zip_rightD)
  with Some show ?thesis by (simp add: lower_char_def)
qed

lemma lower_char_of_dot: "lower_char (CHR ''.'') = CHR ''.''"
  by (simp add: lower_char_def)

lemma lower_char_dot: "lower_char c = CHR ''.'' \<longleftrightarrow> c = CHR ''.''"
proof
  assume a: "lower_char c = CHR ''.''"
  have "CHR ''.'' \<notin> set ''abcdefghijklmnopqrstuvwxyz''" by simp
  with a lower_char_cases [of c] show "c = CHR ''.''" by metis
next
  assume "c = CHR ''.''"
  then show "lower_char c = CHR ''.''" by (simp add: lower_char_of_dot)
qed

lemma str_lower_zip:
  "str_lower ext = ''.zip'' \<longleftrightarrow>
     (\<exists>z i p. ext = [CHR ''.'', z, i, p] \<and> lower_char z = CHR ''z'' \<and> lower_char i = CHR ''i''
        \<and> lower_char p = CHR ''p'')"
proof
  assume "str_lower ext = ''.zip''"
  then obtain d z i p where e: "ext = [d, z, i, p]" "lower_char d = CHR ''.''"
    "lower_char z = CHR ''z''" "lower_char i = CHR ''i''" "lower_char p = CHR ''p''"
    unfolding str_lower_def by (auto simp: map_eq_Cons_conv)
  from e(2) have "d = CHR ''.''" by (simp add: lower_char_dot)
  with e show "\<exists>z i p. ext = [CHR ''.'', z, i, p] \<and> lower_char z = CHR ''z''
      \<and> lower_char i = CHR ''i'' \<and> lower_char p = CHR ''p''" by blast
next
  assume "\<exists>z i p. ext = [CHR ''.'', z, i, p] \<and> lower_char z = CHR ''z'' \<and> lower_char i = CHR ''i''
        \<and> lower_char p = CHR ''p''"
  then show "str_lower ext = ''.zip''"
    unfolding str_lower_def by (auto simp: lower_char_of_dot)
qed

lemma rfind_zip:
  assumes "str_lower ext = ''.zip''"
  shows "rfind (CHR ''.'') (stem @ ext) = Some (length stem)"
proof -
  from assms obtain z i p where e: "ext = [CHR ''.'', z, i, p]"
    "lower_char z = CHR ''z''" "lower_char i = CHR ''i''" "lower_char p = CHR ''p''"
    unfolding str_lower_zip by blast
  have "z \<noteq> CHR ''.''" using e(2) lower_char_of_dot by auto
  moreover have "i \<noteq> CHR ''.''" using e(3) lower_char_of_dot by auto
  moreover have "p \<noteq> CHR ''.''" using e(4) lower_char_of_dot by auto
  ultimately have "rfind (CHR ''.'') ext = Some 0" by (simp add: e(1))
  then show ?thesis by (simp add: rfind_append)
qed

lemma rfind_bound: "rfind c s = Some i \<Longrightarrow> i < length s"
  by (induction s arbitrary: i) (auto split: option.splits if_splits)

text \<open>The test of the event handler holds for the names with a non-empty stem and the
  extension \<open>.zip\<close> in any case; the pattern of the scan holds for these and for the bare
  name \<open>.zip\<close>.\<close>

lemma zip_suffix_iff:
  "str_lower (name_suffix name) = ''.zip'' \<longleftrightarrow>
     (\<exists>stem ext. name = stem @ ext \<and> stem \<noteq> [] \<and> str_lower ext = ''.zip'')"
proof
  assume l: "str_lower (name_suffix name) = ''.zip''"
  then obtain i where i: "rfind (CHR ''.'') name = Some i" "0 < i" "i < length name - 1"
    "name_suffix name = drop i name"
    by (simp add: name_suffix_def split: option.splits if_splits) (simp_all add: str_lower_def)
  have "name = take i name @ drop i name" by simp
  moreover have "take i name \<noteq> []" using i(2,3) by auto
  ultimately show "\<exists>stem ext. name = stem @ ext \<and> stem \<noteq> [] \<and> str_lower ext = ''.zip''"
    using l i(4) by metis
next
  assume "\<exists>stem ext. name = stem @ ext \<and> stem \<noteq> [] \<and> str_lower ext = ''.zip''"
  then obtain stem ext where n: "name = stem @ ext" "stem \<noteq> []" "str_lower ext = ''.zip''"
    by blast
  from n(3) have len: "length ext = 4" unfolding str_lower_zip by auto
  have "rfind (CHR ''.'') name = Some (length stem)" unfolding n(1) using n(3) by (rule rfind_zip)
  then have "name_suffix name = ext"
    using n(1,2) len by (simp add: name_suffix_def)
  with n(3) show "str_lower (name_suffix name) = ''.zip''" by simp
qed

lemma fnmatch_zip_iff:
  "fnmatch_zip name \<longleftrightarrow> (\<exists>stem ext. name = stem @ ext \<and> str_lower ext = ''.zip'')"
proof
  assume "fnmatch_zip name"
  then have "name = take (length name - 4) name @ drop (length name - 4) name
      \<and> str_lower (drop (length name - 4) name) = ''.zip''"
    by (simp add: fnmatch_zip_def)
  then show "\<exists>stem ext. name = stem @ ext \<and> str_lower ext = ''.zip''" by blast
next
  assume "\<exists>stem ext. name = stem @ ext \<and> str_lower ext = ''.zip''"
  then obtain stem ext where n: "name = stem @ ext" "str_lower ext = ''.zip''" by blast
  from n(2) have "length ext = 4" unfolding str_lower_zip by auto
  with n show "fnmatch_zip name" by (simp add: fnmatch_zip_def)
qed


text \<open>
  C8. The event handler passes an entry on exactly when it is not a directory and the
  suffix of its name is \<open>.zip\<close> in any case (\<open>on_created\<close>, \<open>on_moved\<close>,
  \<open>handle_path\<close>). The startup scan and the poll sweep take what the pattern \<open>*.zip\<close>
  matches and do not look at the kind of the entry: a directory named \<open>d.zip\<close> in the watch
  folder is passed to \<open>process_zip_file\<close>, which probes it through the retry budget and
  logs a timeout, while the event handler ignores the same entry.
\<close>

theorem scan_emits_directory:
  "node_at (fmupd [''w'', ''d.zip''] Dir (fmupd [''w''] Dir fmempty)) [''w'', ''d.zip''] = Some Dir
   \<and> glob_zip (fmupd [''w'', ''d.zip''] Dir (fmupd [''w''] Dir fmempty)) [''w''] = [[''w'', ''d.zip'']]
   \<and> startup_scan (quiet_world (fmupd [''w'', ''d.zip''] Dir (fmupd [''w''] Dir fmempty)))
        example_config [''w''] [''dev''] [''dev'', ''todo.md'']
      = Inr (log_info (log_info
               (at_time (quiet_world (fmupd [''w'', ''d.zip''] Dir (fmupd [''w''] Dir fmempty))) 2)
               (FoundExisting [''w'', ''d.zip''])) (Timeout [''w'', ''d.zip''] 2))
   \<and> on_created (quiet_world (fmupd [''w'', ''d.zip''] Dir (fmupd [''w''] Dir fmempty)))
        example_config [''dev''] [''dev'', ''todo.md'']
        \<lparr>is_directory = True, src_path = [''w'', ''d.zip''], dest_path = []\<rparr>
      = Inr (quiet_world (fmupd [''w'', ''d.zip''] Dir (fmupd [''w''] Dir fmempty)))"
proof -
  let ?fs = "fmupd [''w'', ''d.zip''] Dir (fmupd [''w''] Dir fmempty)"
  have "set (glob_zip ?fs [''w'']) = {[''w'', ''d.zip'']}"
    by (auto simp: glob_zip_set fnmatch_zip_def str_lower_def lower_char_def)
  then have g: "glob_zip ?fs [''w''] = [[''w'', ''d.zip'']]" by (rule glob_zip_single)
  have s: "startup_scan (quiet_world ?fs) example_config [''w''] [''dev''] [''dev'', ''todo.md'']
      = Inr (log_info (log_info (at_time (quiet_world ?fs) 2)
               (FoundExisting [''w'', ''d.zip''])) (Timeout [''w'', ''d.zip''] 2))"
    unfolding startup_scan_def
    by (simp add: g quiet_world_def example_config_def process_zip_file_def wait_for_file_ready_def
        exclusive_open_def time_sleep_def node_at_def py_int_def log_info_def at_time_def)
  have e: "on_created (quiet_world ?fs) example_config [''dev''] [''dev'', ''todo.md'']
        \<lparr>is_directory = True, src_path = [''w'', ''d.zip''], dest_path = []\<rparr>
      = Inr (quiet_world ?fs)"
    by (simp add: on_created_def)
  have n: "node_at ?fs [''w'', ''d.zip''] = Some Dir" by (simp add: node_at_def)
  from n g s e show ?thesis by blast
qed

end
